theory Spec2Isabelle
  imports Complex_Main "HOL-Library.AList" "HOL-Library.Multiset"
begin

section \<open>JavaScript values\<close>

text \<open>
  The values the radio's code inspects with \<^verbatim>\<open>typeof\<close>, \<^verbatim>\<open>||\<close>, \<^verbatim>\<open>!\<close> and
  \<^verbatim>\<open>parseInt\<close>: the constructor's options and the object that the bitrate probe
  resolves to.  Numbers are \<open>NaN\<close>, the two infinities and the integers among the doubles
  (\<open>Num n\<close>); numbers with a fraction are left out of the model.  A string is the list of
  its code units, which the model takes below 256.  An object is the list of its own
  properties.
\<close>

datatype jsnum = NaN | Num int | PosInfinity | NegInfinity

datatype jsval =
    JUndefined
  | JNull
  | JBool bool
  | JNumber jsnum
  | JString string
  | JFunction
  | JArray "jsval list"
  | JObject "(string \<times> jsval) list"

datatype error =
    TypeError
  | CatalogUnavailable
  | ProbeFailure
  | AudioDirectoryNotString
  | AudioDirectoryMissing
  | BitrateNotNumber
  | LoopNotBoolean
  | ShuffleNotBoolean
  | LogFnNotFunction
  | NoMp3Files
  | AlreadyPlaying
  | NotPlaying

text \<open>JavaScript's \<^verbatim>\<open>ToBoolean\<close>, which \<^verbatim>\<open>if\<close>, \<^verbatim>\<open>!\<close>, \<^verbatim>\<open>&&\<close> and \<^verbatim>\<open>||\<close> apply.\<close>

fun truthy :: "jsval \<Rightarrow> bool" where
  "truthy JUndefined = False"
| "truthy JNull = False"
| "truthy (JBool b) = b"
| "truthy (JNumber NaN) = False"
| "truthy (JNumber (Num n)) = (n \<noteq> 0)"
| "truthy (JNumber PosInfinity) = True"
| "truthy (JNumber NegInfinity) = True"
| "truthy (JString s) = (s \<noteq> [])"
| "truthy JFunction = True"
| "truthy (JArray xs) = True"
| "truthy (JObject kvs) = True"

fun typeof :: "jsval \<Rightarrow> string" where
  "typeof JUndefined = ''undefined''"
| "typeof JNull = ''object''"
| "typeof (JBool b) = ''boolean''"
| "typeof (JNumber n) = ''number''"
| "typeof (JString s) = ''string''"
| "typeof JFunction = ''function''"
| "typeof (JArray xs) = ''object''"
| "typeof (JObject kvs) = ''object''"

text \<open>
  Reading a property \<^verbatim>\<open>v.k\<close> and an element \<^verbatim>\<open>v[i]\<close>.  On \<^verbatim>\<open>undefined\<close> and
  \<^verbatim>\<open>null\<close> both raise a \<^verbatim>\<open>TypeError\<close>; on every other value a property that is
  absent reads as \<^verbatim>\<open>undefined\<close>.  The keys read by the code (\<^verbatim>\<open>streams\<close>,
  \<^verbatim>\<open>bit_rate\<close>) are on no prototype, so only own properties are looked up.
\<close>

fun get_member :: "jsval \<Rightarrow> string \<Rightarrow> error + jsval" where
  "get_member JUndefined k = Inl TypeError"
| "get_member JNull k = Inl TypeError"
| "get_member (JObject kvs) k = Inr (case map_of kvs k of Some v \<Rightarrow> v | None \<Rightarrow> JUndefined)"
| "get_member v k = Inr JUndefined"

fun get_index0 :: "jsval \<Rightarrow> error + jsval" where
  "get_index0 JUndefined = Inl TypeError"
| "get_index0 JNull = Inl TypeError"
| "get_index0 (JArray xs) = Inr (case xs of [] \<Rightarrow> JUndefined | x # _ \<Rightarrow> x)"
| "get_index0 (JString s) = Inr (case s of [] \<Rightarrow> JUndefined | c # _ \<Rightarrow> JString [c])"
| "get_index0 (JObject kvs) = Inr (case map_of kvs ''0'' of Some v \<Rightarrow> v | None \<Rightarrow> JUndefined)"
| "get_index0 v = Inr JUndefined"

subsection \<open>\<^verbatim>\<open>parseInt\<close>\<close>

definition digit_chars :: string where
  "digit_chars = ''0123456789''"

function dec_digits :: "nat \<Rightarrow> string" where
  "dec_digits n = (if n < 10 then [digit_chars ! n] else dec_digits (n div 10) @ [digit_chars ! (n mod 10)])"
  by pat_completeness auto
termination
  by (relation "measure (\<lambda>n. n)") auto

declare dec_digits.simps [simp del]

text \<open>
  \<^verbatim>\<open>Number::toString\<close>.  An integer of magnitude below \<open>2\<^sup>5\<^sup>3\<close> is printed digit by
  digit, and this is what the definition does for every \<open>Num n\<close>.  JavaScript prints a
  larger double with its shortest digits that read back as the same double, and from
  \<open>10\<^sup>2\<^sup>1\<close> on with an exponent; the definition is not to be read for such \<open>n\<close>, and
  the lemmas about it below are stated for \<open>n\<close> of magnitude below \<open>2\<^sup>5\<^sup>3\<close>.
\<close>

definition number_to_string :: "jsnum \<Rightarrow> string" where
  "number_to_string x =
     (case x of
        NaN \<Rightarrow> ''NaN''
      | Num n \<Rightarrow> (if n < 0 then CHR ''-'' # dec_digits (nat (- n)) else dec_digits (nat n))
      | PosInfinity \<Rightarrow> ''Infinity''
      | NegInfinity \<Rightarrow> ''-Infinity'')"

fun join_comma :: "string list \<Rightarrow> string" where
  "join_comma [] = []"
| "join_comma [s] = s"
| "join_comma (s # t # ss) = s @ '','' @ join_comma (t # ss)"

text \<open>\<^verbatim>\<open>ToString\<close>, which \<^verbatim>\<open>parseInt\<close> applies to its argument first.\<close>

fun to_string :: "jsval \<Rightarrow> string" where
  "to_string JUndefined = ''undefined''"
| "to_string JNull = ''null''"
| "to_string (JBool b) = (if b then ''true'' else ''false'')"
| "to_string (JNumber x) = number_to_string x"
| "to_string (JString s) = s"
| "to_string JFunction = ''function () { [native code] }''"
| "to_string (JArray xs) =
     join_comma (map (\<lambda>v. if v = JUndefined \<or> v = JNull then [] else to_string v) xs)"
| "to_string (JObject kvs) = ''[object Object]''"

text \<open>
  The white space and line terminators that \<^verbatim>\<open>parseInt\<close> skips, as far as they lie
  below 256: tab, line feed, vertical tab, form feed, carriage return, space and the
  no-break space.
\<close>

definition is_whitespace :: "char \<Rightarrow> bool" where
  "is_whitespace c \<longleftrightarrow>
     c \<in> set [CHR '' '', CHR 0x09, CHR 0x0A, CHR 0x0B, CHR 0x0C, CHR 0x0D, CHR 0xA0]"

definition digit_val :: "char \<Rightarrow> nat option" where
  "digit_val = map_of
     [(CHR ''0'', 0), (CHR ''1'', 1), (CHR ''2'', 2), (CHR ''3'', 3), (CHR ''4'', 4),
      (CHR ''5'', 5), (CHR ''6'', 6), (CHR ''7'', 7), (CHR ''8'', 8), (CHR ''9'', 9),
      (CHR ''a'', 10), (CHR ''b'', 11), (CHR ''c'', 12), (CHR ''d'', 13), (CHR ''e'', 14),
      (CHR ''f'', 15), (CHR ''A'', 10), (CHR ''B'', 11), (CHR ''C'', 12), (CHR ''D'', 13),
      (CHR ''E'', 14), (CHR ''F'', 15)]"

definition is_digit :: "nat \<Rightarrow> char \<Rightarrow> bool" where
  "is_digit radix c = (case digit_val c of Some d \<Rightarrow> d < radix | None \<Rightarrow> False)"

definition digits_value :: "nat \<Rightarrow> string \<Rightarrow> nat" where
  "digits_value radix ds = foldl (\<lambda>acc c. acc * radix + the (digit_val c)) 0 ds"

text \<open>
  The double nearest to a natural number, ties going to the even mantissa:
  \<open>double_shift v\<close> is the number of low bits that do not fit into the 53 bits of the
  mantissa.  From \<open>2\<^sup>1\<^sup>0\<^sup>2\<^sup>4\<close> on the rounded value is no finite double.
\<close>

function double_shift :: "nat \<Rightarrow> nat" where
  "double_shift v = (if v < 2 ^ 53 then 0 else Suc (double_shift (v div 2)))"
  by pat_completeness auto
termination
  by (relation "measure (\<lambda>v. v)") auto

declare double_shift.simps [simp del]

definition round_to_double :: "nat \<Rightarrow> nat" where
  "round_to_double v =
     (let e = double_shift v;
          q = v div 2 ^ e;
          r = v mod 2 ^ e
      in if 2 * r > 2 ^ e \<or> (2 * r = 2 ^ e \<and> odd q) then (q + 1) * 2 ^ e else q * 2 ^ e)"

text \<open>
  \<^verbatim>\<open>parseInt(string)\<close> with no radix: leading white space is skipped, then a sign,
  then \<^verbatim>\<open>0x\<close> selects radix 16; the longest prefix of digits is read, and no digit
  at all gives \<open>NaN\<close>.  The value read is rounded to a double.
\<close>

definition parseInt_string :: "string \<Rightarrow> jsnum" where
  "parseInt_string s =
     (let s1 = dropWhile is_whitespace s;
          neg = (case s1 of c # _ \<Rightarrow> c = CHR ''-'' | [] \<Rightarrow> False);
          s2 = (case s1 of c # r \<Rightarrow> (if c = CHR ''-'' \<or> c = CHR ''+'' then r else s1) | [] \<Rightarrow> s1);
          hex = (take 2 s2 = ''0x'' \<or> take 2 s2 = ''0X'');
          radix = (if hex then 16 else 10);
          s3 = (if hex then drop 2 s2 else s2);
          ds = takeWhile (is_digit radix) s3;
          v = round_to_double (digits_value radix ds)
      in if ds = [] then NaN
         else if v \<ge> 2 ^ 1024 then (if neg then NegInfinity else PosInfinity)
         else Num ((if neg then - 1 else 1) * int v))"

definition parseInt :: "jsval \<Rightarrow> jsnum" where
  "parseInt v = parseInt_string (to_string v)"

section \<open>The player's options and its environment\<close>

text \<open>
  One options object is shared by \<^verbatim>\<open>WebRadio\<close> and \<^verbatim>\<open>Player\<close>; every field holds
  whatever value the caller passed.
\<close>

record options =
  audioDirectory :: jsval
  bitrate :: jsval
  loop :: jsval
  shuffle :: jsval
  logFn :: jsval

text \<open>
  An entry of \<^verbatim>\<open>fs.readdirSync(dir, { withFileTypes: true })\<close>: its name, and what its
  method \<^verbatim>\<open>isFile()\<close> would answer when called.
\<close>

record dirent =
  name :: string
  isFile_result :: bool

text \<open>
  What the code reads from outside during one operation: whether the audio directory
  exists, its listing (\<open>None\<close> when \<^verbatim>\<open>readdirSync\<close> throws), the successive values of
  \<^verbatim>\<open>Math.random()\<close> (each in \<open>[0, 1)\<close>), what \<^verbatim>\<open>ffprobe\<close> resolves to on a song (\<open>None\<close>
  when the promise rejects), and the identifier \<^verbatim>\<open>randomBytes(16)\<close> yields.
  The audio directory is fixed for an instance, so a song's path is identified with
  the song's name.
\<close>

record env =
  existsSync :: bool
  readdirSync :: "dirent list option"
  random :: "nat \<Rightarrow> real"
  ffprobe :: "string \<Rightarrow> jsval option"
  randomBytes :: string

subsection \<open>\<^verbatim>\<open>path.extname\<close>\<close>

text \<open>
  Node's \<^verbatim>\<open>path.extname\<close> on a name without a separator, as directory entries are:
  the part from the last dot on, and the empty string when there is no dot, when the
  last dot is the first character, or when the name is \<^verbatim>\<open>..\<close>.
\<close>

definition extname :: "string \<Rightarrow> string" where
  "extname p =
     (let ext = rev (takeWhile (\<lambda>c. c \<noteq> CHR ''.'') (rev p));
          stem = take (length p - length ext - 1) p
      in if length ext = length p then []
         else if stem = [] then []
         else if stem = ''.'' \<and> ext = [] then []
         else CHR ''.'' # ext)"

section \<open>Track catalog: \<^verbatim>\<open>Player.readSongs\<close>\<close>

text \<open>
  \<^verbatim>\<open>item.isFile\<close> in the filter is the method itself, not a call of it: whatever
  the entry is, it is a function.
\<close>

definition isFile_member :: "dirent \<Rightarrow> jsval" where
  "isFile_member item = JFunction"

text \<open>
  The shuffle loop \<^verbatim>\<open>for (let i = songs.length - 1; i > 0; i--)\<close>; \<open>k\<close> counts the
  calls of \<^verbatim>\<open>Math.random()\<close> made so far.
\<close>

fun shuffle_loop :: "(nat \<Rightarrow> real) \<Rightarrow> nat \<Rightarrow> nat \<Rightarrow> string list \<Rightarrow> string list" where
  "shuffle_loop rnd k 0 songs = songs"
| "shuffle_loop rnd k (Suc i') songs =
     (let i = Suc i';
          j = nat \<lfloor>rnd k * real (i + 1)\<rfloor>
      in shuffle_loop rnd (Suc k) i' (songs[i := songs ! j, j := songs ! i]))"

definition readSongs :: "env \<Rightarrow> options \<Rightarrow> error + string list" where
  "readSongs e options =
     (case readdirSync e of
        None \<Rightarrow> Inl CatalogUnavailable
      | Some audioDir \<Rightarrow>
          (let songs = map name
                 (filter (\<lambda>item. truthy (isFile_member item) \<and> extname (name item) = ''.mp3'')
                    audioDir)
           in Inr (if truthy (shuffle options)
                   then shuffle_loop (random e) 0 (length songs - 1) songs
                   else songs)))"

section \<open>Bitrate resolver, sinks and the player's state\<close>

text \<open>
  Node's stream objects, as far as the player touches them.  A read stream is the
  file of one song; a \<^verbatim>\<open>PassThrough\<close> is a listener's sink, and \<open>chunks\<close> is what
  has been written to it and so handed on to its \<^verbatim>\<open>data\<close> listener.
\<close>

type_synonym chunk = string

record stream =
  destroyed :: bool

record readStream = stream +
  path :: string

record passThrough = stream +
  chunks :: "chunk list"
  writableEnded :: bool

definition destroy :: "'a stream_scheme \<Rightarrow> 'a stream_scheme" where
  "destroy s = s\<lparr>destroyed := True\<rparr>"

definition new_PassThrough :: passThrough where
  "new_PassThrough = \<lparr>destroyed = False, chunks = [], writableEnded = False\<rparr>"

definition createReadStream :: "string \<Rightarrow> readStream" where
  "createReadStream songPath = \<lparr>destroyed = False, path = songPath\<rparr>"

text \<open>
  \<^verbatim>\<open>sink.write(chunk)\<close>.  A writable stream takes the chunk.  A destroyed stream
  refuses it and stays as it is.  A stream that was ended and not destroyed refuses it
  too, and Node destroys the stream with a write-after-end error; the call itself
  returns to the loop that made it.  Node hands that error to the stream's
  \<^verbatim>\<open>error\<close> listeners on a later tick; the code puts none on a sink, so the error
  would end the process, which is beyond this model.  No registered sink of a radio is
  ever in either state (lemma \<open>reachable_inv\<close> below).
\<close>

definition sink_write :: "chunk \<Rightarrow> passThrough \<Rightarrow> passThrough" where
  "sink_write c s =
     (if destroyed s then s
      else if writableEnded s then destroy s
      else s\<lparr>chunks := chunks s @ [c]\<rparr>)"

definition sink_end :: "passThrough \<Rightarrow> passThrough" where
  "sink_end s = s\<lparr>writableEnded := True\<rparr>"

text \<open>The messages handed to \<^verbatim>\<open>logFn\<close>, one constructor for each template in the code.\<close>

datatype message =
    FoundSongs nat
  | NewSinkCreated string
  | StreamClosedFor string
  | BitrateFallback string
  | NoMoreSongs
  | NowPlaying "string option" jsnum
  | StoppedPlaying
  | WillStopAfterCurrentSong
  | ClientWhileOffline

text \<open>
  The fields of \<^verbatim>\<open>Player\<close>.  Objects are held by reference: \<open>readStreams\<close> and
  \<open>passThroughs\<close> are the stores of the stream objects created so far, an object's
  address being its index; \<open>currentSongStream\<close> is \<open>None\<close> for \<^verbatim>\<open>null\<close>, and \<open>sinks\<close>
  is the \<^verbatim>\<open>Map\<close> from sink identifiers to sinks in insertion order.  \<open>logged\<close> collects
  the calls of \<^verbatim>\<open>logFn\<close>.
\<close>

record player =
  opts :: options
  currentSongStream :: "nat option"
  sinks :: "(string \<times> nat) list"
  songs :: "string list"
  currentSong :: "string option"
  playing :: bool
  readStreams :: "readStream list"
  passThroughs :: "passThrough list"
  logged :: "message list"

text \<open>
  How a call ends: it returns, it throws to its caller, or (for the asynchronous
  \<^verbatim>\<open>playNextSong\<close>, whose promise nobody awaits) its promise is rejected.
\<close>

datatype outcome = Returned | Threw error | Rejected error

definition logFn_call :: "message \<Rightarrow> player \<Rightarrow> player" where
  "logFn_call m st = st\<lparr>logged := logged st @ [m]\<rparr>"

definition createResponseSink :: "env \<Rightarrow> player \<Rightarrow> (string \<times> nat) \<times> player" where
  "createResponseSink e st =
     (let sinkId = randomBytes e;
          st1 = logFn_call (NewSinkCreated sinkId) st;
          responseSink = length (passThroughs st1);
          st2 = st1\<lparr>passThroughs := passThroughs st1 @ [new_PassThrough]\<rparr>;
          st3 = st2\<lparr>sinks := AList.update sinkId responseSink (sinks st2)\<rparr>
      in ((sinkId, responseSink), st3))"

definition removeResponseSink :: "string \<Rightarrow> player \<Rightarrow> player" where
  "removeResponseSink sinkId st =
     (let st1 = (case map_of (sinks st) sinkId of
                   Some sink \<Rightarrow> st\<lparr>passThroughs := (passThroughs st)[sink := destroy (passThroughs st ! sink)]\<rparr>
                 | None \<Rightarrow> st);
          st2 = st1\<lparr>sinks := AList.delete sinkId (sinks st1)\<rparr>
      in logFn_call (StreamClosedFor sinkId) st2)"

text \<open>The loop \<^verbatim>\<open>for (const [, sink] of this.sinks) sink.f()\<close> over the store.\<close>

definition for_each_sink ::
    "(passThrough \<Rightarrow> passThrough) \<Rightarrow> (string \<times> nat) list \<Rightarrow> passThrough list \<Rightarrow> passThrough list" where
  "for_each_sink f reg store = fold (\<lambda>(sinkId, sink) h. h[sink := f (h ! sink)]) reg store"

definition broadcastChunk :: "chunk \<Rightarrow> player \<Rightarrow> player" where
  "broadcastChunk c st = st\<lparr>passThroughs := for_each_sink (sink_write c) (sinks st) (passThroughs st)\<rparr>"

text \<open>
  The block that ends every sink and then clears the map; the code repeats it in
  \<^verbatim>\<open>playNextSong\<close>, in the \<^verbatim>\<open>end\<close> handler and in \<^verbatim>\<open>stop\<close>.
\<close>

definition endAll :: "player \<Rightarrow> player" where
  "endAll st =
     (let st1 = st\<lparr>passThroughs := for_each_sink sink_end (sinks st) (passThroughs st)\<rparr>
      in st1\<lparr>sinks := []\<rparr>)"

text \<open>
  \<^verbatim>\<open>(await ffprobe(song)).streams[0].bit_rate\<close>: the promise may reject, and each
  property read may raise.
\<close>

definition probed_bit_rate :: "env \<Rightarrow> string \<Rightarrow> error + jsval" where
  "probed_bit_rate e song =
     (case ffprobe e song of
        None \<Rightarrow> Inl ProbeFailure
      | Some info \<Rightarrow>
          (case get_member info ''streams'' of
             Inl err \<Rightarrow> Inl err
           | Inr streams \<Rightarrow>
               (case get_index0 streams of
                  Inl err \<Rightarrow> Inl err
                | Inr first \<Rightarrow> get_member first ''bit_rate'')))"

definition getBitRate :: "env \<Rightarrow> string \<Rightarrow> player \<Rightarrow> jsnum \<times> player" where
  "getBitRate e song st =
     (case (if truthy (bitrate (opts st)) then Inr (bitrate (opts st)) else probed_bit_rate e song) of
        Inr bitRate \<Rightarrow> (parseInt bitRate, st)
      | Inl err \<Rightarrow> (Num 128000, logFn_call (BitrateFallback song) st))"

section \<open>The broadcast engine: \<^verbatim>\<open>Player\<close>\<close>

text \<open>\<^verbatim>\<open>this._currentSongStream.destroy(); this._currentSongStream = null;\<close>\<close>

definition destroy_current :: "player \<Rightarrow> error + player" where
  "destroy_current st =
     (case currentSongStream st of
        None \<Rightarrow> Inl TypeError
      | Some s \<Rightarrow>
          Inr (st\<lparr>readStreams := (readStreams st)[s := destroy (readStreams st ! s)],
                 currentSongStream := None\<rparr>))"

text \<open>
  \<^verbatim>\<open>playNextSong\<close> up to its \<^verbatim>\<open>await\<close>: either the call is over (\<open>Inl\<close>), or it is
  suspended with the path of the song whose bitrate is being resolved (\<open>Inr\<close>).
  Taking the next song from an empty queue gives \<^verbatim>\<open>undefined\<close>, which \<^verbatim>\<open>path.join\<close>
  refuses with a \<^verbatim>\<open>TypeError\<close>.
\<close>

definition playNextSong_begin :: "env \<Rightarrow> player \<Rightarrow> (outcome + string) \<times> player" where
  "playNextSong_begin e st =
     (let shift = (\<lambda>st1.
            (let st2 = st1\<lparr>currentSong := (case songs st1 of [] \<Rightarrow> None | x # _ \<Rightarrow> Some x),
                           songs := tl (songs st1)\<rparr>
             in case currentSong st2 of
                  None \<Rightarrow> (Inl (Rejected TypeError), st2)
                | Some songPath \<Rightarrow>
                    (Inr songPath,
                     st2\<lparr>readStreams := readStreams st2 @ [createReadStream songPath],
                         currentSongStream := Some (length (readStreams st2))\<rparr>)))
      in if length (songs st) = 0 then
           (if truthy (loop (opts st)) then
              (case readSongs e (opts st) of
                 Inl err \<Rightarrow> (Inl (Rejected err), st)
               | Inr found \<Rightarrow> shift (st\<lparr>songs := found\<rparr>))
            else
              (let st1 = logFn_call NoMoreSongs st
               in case destroy_current st1 of
                    Inl err \<Rightarrow> (Inl (Rejected err), st1)
                  | Inr st2 \<Rightarrow>
                      (Inl Returned, logFn_call StoppedPlaying (endAll (st2\<lparr>playing := False\<rparr>)))))
         else shift st)"

text \<open>
  The rest of \<^verbatim>\<open>playNextSong\<close>, once the bitrate is there.  Piping a \<^verbatim>\<open>null\<close> stream
  raises; otherwise the stream is piped through a \<^verbatim>\<open>Throttle\<close>, whose pacing in real
  time is not modelled: the throttle stands in the model as the \<^verbatim>\<open>data\<close> and \<^verbatim>\<open>end\<close>
  events it emits, handled by the two handlers below.
\<close>

definition playNextSong_resume :: "jsnum \<Rightarrow> player \<Rightarrow> outcome \<times> player" where
  "playNextSong_resume bitRate st =
     (let st1 = logFn_call (NowPlaying (currentSong st) bitRate) st;
          st2 = st1\<lparr>playing := True\<rparr>
      in case currentSongStream st2 of
           None \<Rightarrow> (Rejected TypeError, st2)
         | Some s \<Rightarrow> (Returned, st2))"

text \<open>\<^verbatim>\<open>playNextSong\<close> with nothing else running while it awaits the bitrate.\<close>

definition playNextSong :: "env \<Rightarrow> player \<Rightarrow> outcome \<times> player" where
  "playNextSong e st =
     (case playNextSong_begin e st of
        (Inl out, st1) \<Rightarrow> (out, st1)
      | (Inr songPath, st1) \<Rightarrow>
          (case getBitRate e songPath st1 of (bitRate, st2) \<Rightarrow> playNextSong_resume bitRate st2))"

text \<open>The \<^verbatim>\<open>data\<close> and \<^verbatim>\<open>end\<close> handlers on the throttled stream of the current song.\<close>

definition on_data :: "chunk \<Rightarrow> player \<Rightarrow> player" where
  "on_data c st = broadcastChunk c st"

definition on_end :: "env \<Rightarrow> player \<Rightarrow> outcome \<times> player" where
  "on_end e st =
     (if \<not> playing st then
        (case destroy_current st of
           Inl err \<Rightarrow> (Threw err, st)
         | Inr st1 \<Rightarrow> (Returned, logFn_call StoppedPlaying (endAll st1)))
      else playNextSong e st)"

definition Player_start :: "env \<Rightarrow> player \<Rightarrow> outcome \<times> player" where
  "Player_start e st =
     (case readSongs e (opts st) of
        Inl err \<Rightarrow> (Threw err, st)
      | Inr found \<Rightarrow> playNextSong e (st\<lparr>songs := found\<rparr>))"

definition Player_stop :: "bool \<Rightarrow> player \<Rightarrow> outcome \<times> player" where
  "Player_stop graceful st =
     (let st1 = st\<lparr>songs := [], playing := False\<rparr>
      in if \<not> graceful then
           (case destroy_current st1 of
              Inl err \<Rightarrow> (Threw err, st1)
            | Inr st2 \<Rightarrow> (Returned, logFn_call StoppedPlaying (endAll st2)))
         else (Returned, logFn_call WillStopAfterCurrentSong st1))"

definition Player_constructor :: "env \<Rightarrow> options \<Rightarrow> error + player" where
  "Player_constructor e options =
     (let st = \<lparr>opts = options, currentSongStream = None, sinks = [], songs = [],
                currentSong = None, playing = False, readStreams = [], passThroughs = [],
                logged = []\<rparr>
      in case readSongs e options of
           Inl err \<Rightarrow> Inl err
         | Inr found \<Rightarrow> Inr (logFn_call (FoundSongs (length found)) st))"

text \<open>
  The rest of the current song as the throttle delivers it: its chunks in order, then
  \<^verbatim>\<open>end\<close>.
\<close>

definition play_rest :: "chunk list \<Rightarrow> env \<Rightarrow> player \<Rightarrow> player" where
  "play_rest cs e st = snd (on_end e (fold on_data cs st))"

section \<open>The public interface: \<^verbatim>\<open>WebRadio\<close>\<close>

text \<open>
  A \<^verbatim>\<open>WebRadio\<close> holds the options object, which it shares with its player, and the
  player; its state is the player's.  No code assigns \<^verbatim>\<open>this.playing\<close> on a
  \<^verbatim>\<open>WebRadio\<close>, so that property reads as \<^verbatim>\<open>undefined\<close>.
\<close>

definition WebRadio_playing :: jsval where
  "WebRadio_playing = JUndefined"

text \<open>The defaults that the constructor writes into the options object.\<close>

definition with_defaults :: "options \<Rightarrow> options" where
  "with_defaults options0 =
     (let o1 = (if \<not> truthy (audioDirectory options0)
                then options0\<lparr>audioDirectory := JString ''./audio''\<rparr> else options0);
          o2 = (if loop o1 = JUndefined then o1\<lparr>loop := JBool True\<rparr> else o1);
          o3 = (if shuffle o2 = JUndefined then o2\<lparr>shuffle := JBool False\<rparr> else o2)
      in if \<not> truthy (logFn o3) then o3\<lparr>logFn := JFunction\<rparr> else o3)"

definition WebRadio_constructor :: "env \<Rightarrow> options \<Rightarrow> error + player" where
  "WebRadio_constructor e options0 =
     (let options = with_defaults options0
      in if typeof (audioDirectory options) \<noteq> ''string'' then Inl AudioDirectoryNotString
         else if \<not> existsSync e then Inl AudioDirectoryMissing
         else if truthy (bitrate options) \<and> typeof (bitrate options) \<noteq> ''number''
           then Inl BitrateNotNumber
         else if typeof (loop options) \<noteq> ''boolean'' then Inl LoopNotBoolean
         else if typeof (shuffle options) \<noteq> ''boolean'' then Inl ShuffleNotBoolean
         else if typeof (logFn options) \<noteq> ''function'' then Inl LogFnNotFunction
         else (case Player_constructor e options of
                 Inl err \<Rightarrow> Inl err
               | Inr st \<Rightarrow>
                   (case readSongs e (opts st) of
                      Inl err \<Rightarrow> Inl err
                    | Inr found \<Rightarrow> if length found = 0 then Inl NoMp3Files else Inr st)))"

definition WebRadio_start :: "env \<Rightarrow> player \<Rightarrow> outcome \<times> player" where
  "WebRadio_start e st =
     (if truthy WebRadio_playing \<or> currentSongStream st \<noteq> None then (Threw AlreadyPlaying, st)
      else Player_start e st)"

definition WebRadio_stop :: "bool \<Rightarrow> player \<Rightarrow> outcome \<times> player" where
  "WebRadio_stop graceful st =
     (if \<not> playing st then (Threw NotPlaying, st) else Player_stop graceful st)"

text \<open>
  What the middleware of \<^verbatim>\<open>connect()\<close> answers: status 503, or status 200 with a body
  that relays the chunks of the new sink.
\<close>

datatype response = ServiceUnavailable | Streaming string nat

definition connect :: "env \<Rightarrow> player \<Rightarrow> response \<times> player" where
  "connect e st =
     (if \<not> playing st \<and> currentSongStream st = None
      then (ServiceUnavailable, logFn_call ClientWhileOffline st)
      else (case createResponseSink e st of
              ((sinkId, responseSink), st1) \<Rightarrow> (Streaming sinkId responseSink, st1)))"

text \<open>The \<^verbatim>\<open>close\<close> handler that \<^verbatim>\<open>connect()\<close> puts on the response.\<close>

definition on_close :: "string \<Rightarrow> player \<Rightarrow> player" where
  "on_close radioSinkId st = removeResponseSink radioSinkId st"

section \<open>Well-formed and reachable states\<close>

text \<open>
  The references of a state point into its stores, and no sink object is registered
  under two identifiers.
\<close>

definition store_ok :: "player \<Rightarrow> bool" where
  "store_ok st \<longleftrightarrow>
     distinct (map snd (sinks st)) \<and>
     list_all (\<lambda>sink. sink < length (passThroughs st)) (map snd (sinks st)) \<and>
     pred_option (\<lambda>s. s < length (readStreams st)) (currentSongStream st)"

text \<open>Every registered sink is writable: neither destroyed nor ended.\<close>

definition sinks_live :: "player \<Rightarrow> bool" where
  "sinks_live st \<longleftrightarrow>
     list_all (\<lambda>sink. \<not> destroyed (passThroughs st ! sink) \<and> \<not> writableEnded (passThroughs st ! sink))
       (map snd (sinks st))"

text \<open>The invariant of the engine: the two conditions above.\<close>

definition engine_inv :: "player \<Rightarrow> bool" where
  "engine_inv st \<longleftrightarrow> store_ok st \<and> sinks_live st"

text \<open>
  \<^verbatim>\<open>playNextSong\<close> is asynchronous: a call runs up to the \<^verbatim>\<open>await\<close> of the bitrate,
  other calls and handlers may run, and the rest of the call runs when the bitrate is
  there.  The first parts of \<^verbatim>\<open>Player.start\<close>, \<^verbatim>\<open>WebRadio.start\<close> and the \<^verbatim>\<open>end\<close>
  handler, which call it, and the part of it that runs later:
\<close>

definition Player_start_begin :: "env \<Rightarrow> player \<Rightarrow> (outcome + string) \<times> player" where
  "Player_start_begin e st =
     (case readSongs e (opts st) of
        Inl err \<Rightarrow> (Inl (Threw err), st)
      | Inr found \<Rightarrow> playNextSong_begin e (st\<lparr>songs := found\<rparr>))"

definition WebRadio_start_begin :: "env \<Rightarrow> player \<Rightarrow> (outcome + string) \<times> player" where
  "WebRadio_start_begin e st =
     (if truthy WebRadio_playing \<or> currentSongStream st \<noteq> None
      then (Inl (Threw AlreadyPlaying), st)
      else Player_start_begin e st)"

definition on_end_begin :: "env \<Rightarrow> player \<Rightarrow> (outcome + string) \<times> player" where
  "on_end_begin e st =
     (if \<not> playing st then
        (case destroy_current st of
           Inl err \<Rightarrow> (Inl (Threw err), st)
         | Inr st1 \<Rightarrow> (Inl Returned, logFn_call StoppedPlaying (endAll st1)))
      else playNextSong_begin e st)"

definition playNextSong_finish :: "env \<Rightarrow> string \<Rightarrow> player \<Rightarrow> outcome \<times> player" where
  "playNextSong_finish e songPath st =
     (case getBitRate e songPath st of (bitRate, st1) \<Rightarrow> playNextSong_resume bitRate st1)"

text \<open>A call that got as far as its \<^verbatim>\<open>await\<close> is run to its end at once.\<close>

definition complete :: "env \<Rightarrow> (outcome + string) \<times> player \<Rightarrow> outcome \<times> player" where
  "complete e r =
     (case r of
        (Inl out, st) \<Rightarrow> (out, st)
      | (Inr songPath, st) \<Rightarrow> playNextSong_finish e songPath st)"

fun suspended :: "outcome + string \<Rightarrow> string list" where
  "suspended (Inl out) = []"
| "suspended (Inr songPath) = [songPath]"

text \<open>
  The states a radio goes through, each with the calls of \<^verbatim>\<open>playNextSong\<close> that are
  suspended in it, given by the paths of their songs.  The radio is constructed, and
  then its public methods are called, the handlers of its streams and responses run
  and suspended calls are resumed, in any order.
\<close>

inductive reachable :: "string list \<Rightarrow> player \<Rightarrow> bool" where
  constructed: "WebRadio_constructor e options = Inr st \<Longrightarrow> reachable [] st"
| started: "reachable ps st \<Longrightarrow>
     reachable (ps @ suspended (fst (WebRadio_start_begin e st))) (snd (WebRadio_start_begin e st))"
| resumed: "reachable (ps @ songPath # qs) st \<Longrightarrow>
     reachable (ps @ qs) (snd (playNextSong_finish e songPath st))"
| stopped: "reachable ps st \<Longrightarrow> reachable ps (snd (WebRadio_stop graceful st))"
| connected: "reachable ps st \<Longrightarrow> reachable ps (snd (connect e st))"
| closed: "reachable ps st \<Longrightarrow> reachable ps (on_close sinkId st)"
| data: "reachable ps st \<Longrightarrow> reachable ps (on_data c st)"
| ended: "reachable ps st \<Longrightarrow>
     reachable (ps @ suspended (fst (on_end_begin e st))) (snd (on_end_begin e st))"

text \<open>
  The window of a graceful stop: \<^verbatim>\<open>stop(true)\<close> was called in state \<open>st\<close>, and since
  then the chunks \<open>cs\<close> of the current song have been broadcast.
\<close>

definition graceful_window :: "player \<Rightarrow> chunk list \<Rightarrow> player" where
  "graceful_window st cs = fold on_data cs (snd (WebRadio_stop True st))"

section \<open>Concrete inputs\<close>

definition demo_options :: options where
  "demo_options = \<lparr>audioDirectory = JString ''./audio'', bitrate = JUndefined,
     loop = JBool False, shuffle = JBool False, logFn = JFunction\<rparr>"

definition probe_192k :: jsval where
  "probe_192k = JObject [(''streams'', JArray [JObject [(''bit_rate'', JString ''192000'')]])]"

definition stream_without_bit_rate :: jsval where
  "stream_without_bit_rate =
     JObject [(''streams'', JArray [JObject [(''codec_name'', JString ''opus'')]])]"

definition demo_env :: env where
  "demo_env = \<lparr>existsSync = True,
     readdirSync = Some [\<lparr>name = ''a.mp3'', isFile_result = True\<rparr>,
                         \<lparr>name = ''b.mp3'', isFile_result = True\<rparr>],
     random = (\<lambda>k. 0),
     ffprobe = (\<lambda>song. Some probe_192k),
     randomBytes = ''9f''\<rparr>"

text \<open>A radio that plays \<^verbatim>\<open>a.mp3\<close> to one listener, with \<^verbatim>\<open>b.mp3\<close> queued.\<close>

definition demo_playing :: player where
  "demo_playing = \<lparr>opts = demo_options, currentSongStream = Some 0, sinks = [(''s1'', 0)],
     songs = [''b.mp3''], currentSong = Some ''a.mp3'', playing = True,
     readStreams = [createReadStream ''a.mp3''], passThroughs = [new_PassThrough],
     logged = []\<rparr>"

text \<open>The last song of a radio that does not loop.\<close>

definition demo_last_song :: player where
  "demo_last_song = demo_playing\<lparr>songs := []\<rparr>"

text \<open>The radio as its constructor leaves it.\<close>

definition demo_idle :: player where
  "demo_idle = \<lparr>opts = demo_options, currentSongStream = None, sinks = [], songs = [],
     currentSong = None, playing = False, readStreams = [], passThroughs = [],
     logged = [FoundSongs 2]\<rparr>"

text \<open>A listing with a directory whose name ends in \<^verbatim>\<open>.mp3\<close>.\<close>

definition demo_listing :: "dirent list" where
  "demo_listing = [\<lparr>name = ''album.mp3'', isFile_result = False\<rparr>,
                   \<lparr>name = ''a.mp3'', isFile_result = True\<rparr>,
                   \<lparr>name = ''notes.txt'', isFile_result = True\<rparr>]"

text \<open>
  A run of the radio: \<^verbatim>\<open>start()\<close> is called and \<^verbatim>\<open>a.mp3\<close> plays; when it ends
  \<^verbatim>\<open>playNextSong\<close> opens \<^verbatim>\<open>b.mp3\<close> and awaits its bitrate; \<^verbatim>\<open>stop(false)\<close> is
  called; then the bitrate is there and the suspended call runs on.
\<close>

definition demo_raced :: player where
  "demo_raced =
     (let st1 = snd (WebRadio_start_begin demo_env demo_idle);
          st2 = snd (playNextSong_finish demo_env ''a.mp3'' st1);
          st3 = snd (on_end_begin demo_env st2);
          st4 = snd (WebRadio_stop False st3)
      in snd (playNextSong_finish demo_env ''b.mp3'' st4))"

section \<open>Bitrate resolver\<close>

lemmas parse_eval = parseInt_def parseInt_string_def is_whitespace_def is_digit_def digit_val_def
  digits_value_def number_to_string_def digit_chars_def

lemma round_to_double_small: "v < 2 ^ 53 \<Longrightarrow> round_to_double v = v"
  by (simp add: round_to_double_def double_shift.simps)

lemma below_overflow: "v < 2 ^ 53 \<Longrightarrow> \<not> (2 ^ 1024 \<le> (v::nat))"
proof -
  assume "v < 2 ^ 53"
  also have "(2::nat) ^ 53 < 2 ^ 1024" by (rule power_strict_increasing) simp_all
  finally show ?thesis by simp
qed

lemma small_cases:
  "d < 10 \<Longrightarrow> d = 0 \<or> d = 1 \<or> d = 2 \<or> d = 3 \<or> d = 4 \<or> d = 5 \<or> d = 6 \<or> d = 7 \<or> d = 8 \<or> d = (9::nat)"
  by arith

lemma digit_val_digit_chars: "d < 10 \<Longrightarrow> digit_val (digit_chars ! d) = Some d"
  by (drule small_cases) (auto simp: digit_val_def digit_chars_def)

lemma digit_chars_plain:
  "d < 10 \<Longrightarrow> is_digit 10 (digit_chars ! d) \<and> \<not> is_whitespace (digit_chars ! d) \<and>
     digit_chars ! d \<noteq> CHR ''-'' \<and> digit_chars ! d \<noteq> CHR ''+'' \<and>
     digit_chars ! d \<noteq> CHR ''x'' \<and> digit_chars ! d \<noteq> CHR ''X''"
  by (drule small_cases) (auto simp: is_digit_def digit_val_def digit_chars_def is_whitespace_def)

lemma dec_digits_not_Nil: "dec_digits n \<noteq> []"
  by (subst dec_digits.simps) simp

lemma dec_digits_plain:
  "c \<in> set (dec_digits n) \<Longrightarrow>
   is_digit 10 c \<and> \<not> is_whitespace c \<and> c \<noteq> CHR ''-'' \<and> c \<noteq> CHR ''+'' \<and> c \<noteq> CHR ''x'' \<and> c \<noteq> CHR ''X''"
proof (induction n rule: dec_digits.induct)
  case (1 n)
  show ?case
  proof (cases "n < 10")
    case True
    with "1.prems" have "c = digit_chars ! n" by (subst (asm) dec_digits.simps) simp
    with True show ?thesis by (simp add: digit_chars_plain)
  next
    case False
    with "1.prems" have "c \<in> set (dec_digits (n div 10)) \<or> c = digit_chars ! (n mod 10)"
      by (subst (asm) dec_digits.simps) auto
    then show ?thesis
    proof
      assume "c \<in> set (dec_digits (n div 10))"
      with False "1.IH" show ?thesis by blast
    next
      assume "c = digit_chars ! (n mod 10)"
      then show ?thesis by (simp add: digit_chars_plain)
    qed
  qed
qed

lemma digits_value_snoc:
  "digits_value r (ds @ [c]) = digits_value r ds * r + the (digit_val c)"
  by (simp add: digits_value_def)

lemma digits_value_dec_digits: "digits_value 10 (dec_digits n) = n"
proof (induction n rule: dec_digits.induct)
  case (1 n)
  show ?case
  proof (cases "n < 10")
    case True
    then have "dec_digits n = [digit_chars ! n]" by (subst dec_digits.simps) simp
    with True show ?thesis by (simp add: digits_value_def digit_val_digit_chars)
  next
    case False
    then have "dec_digits n = dec_digits (n div 10) @ [digit_chars ! (n mod 10)]"
      by (subst dec_digits.simps) simp
    with False "1.IH" show ?thesis
      by (simp add: digits_value_snoc digit_val_digit_chars)
  qed
qed

lemma parseInt_string_digits:
  assumes plain: "\<forall>c \<in> set ds. is_digit 10 c \<and> \<not> is_whitespace c \<and> c \<noteq> CHR ''-'' \<and>
      c \<noteq> CHR ''+'' \<and> c \<noteq> CHR ''x'' \<and> c \<noteq> CHR ''X''"
    and ne: "ds \<noteq> []" and small: "digits_value 10 ds < 2 ^ 53"
  shows "parseInt_string ds = Num (int (digits_value 10 ds))"
    and "parseInt_string (CHR ''-'' # ds) = Num (- int (digits_value 10 ds))"
proof -
  have ws: "dropWhile is_whitespace ds = ds"
    using plain ne by (cases ds) auto
  have neg: "(case ds of c # _ \<Rightarrow> c = CHR ''-'' | [] \<Rightarrow> False) = False"
    using plain by (cases ds) auto
  have s2: "(case ds of c # r \<Rightarrow> (if c = CHR ''-'' \<or> c = CHR ''+'' then r else ds) | [] \<Rightarrow> ds) = ds"
    using plain by (cases ds) auto
  have hex: "(take 2 ds = ''0x'') = False" "(take 2 ds = ''0X'') = False"
    using plain by (cases ds; cases "tl ds"; auto)+
  have tw: "takeWhile (is_digit 10) ds = ds"
    using plain by (simp add: takeWhile_eq_all_conv)
  note rd = round_to_double_small [OF small] below_overflow [OF small]
  show "parseInt_string ds = Num (int (digits_value 10 ds))"
    unfolding parseInt_string_def Let_def ws neg s2 hex using ne rd by (simp add: tw)
  have minus: "dropWhile is_whitespace (CHR ''-'' # ds) = CHR ''-'' # ds"
    by (simp add: is_whitespace_def)
  show "parseInt_string (CHR ''-'' # ds) = Num (- int (digits_value 10 ds))"
    unfolding parseInt_string_def Let_def minus using ne rd by (simp add: tw hex)
qed

lemma dec_digits_all_plain:
  "\<forall>c \<in> set (dec_digits n). is_digit 10 c \<and> \<not> is_whitespace c \<and> c \<noteq> CHR ''-'' \<and>
      c \<noteq> CHR ''+'' \<and> c \<noteq> CHR ''x'' \<and> c \<noteq> CHR ''X''"
  using dec_digits_plain by blast

lemma parseInt_number:
  assumes "\<bar>n\<bar> < 2 ^ 53"
  shows "parseInt (JNumber (Num n)) = Num n"
proof (cases "n < 0")
  case True
  have "nat (- n) < 2 ^ 53" using assms True by (simp add: nat_less_iff)
  then have "digits_value 10 (dec_digits (nat (- n))) < 2 ^ 53"
    by (simp add: digits_value_dec_digits)
  from parseInt_string_digits(2) [OF dec_digits_all_plain dec_digits_not_Nil this]
  show ?thesis using True
    by (simp add: parseInt_def number_to_string_def digits_value_dec_digits)
next
  case False
  have "nat n < 2 ^ 53" using assms False by (simp add: nat_less_iff)
  then have "digits_value 10 (dec_digits (nat n)) < 2 ^ 53"
    by (simp add: digits_value_dec_digits)
  from parseInt_string_digits(1) [OF dec_digits_all_plain dec_digits_not_Nil this]
  show ?thesis using False
    by (simp add: parseInt_def number_to_string_def digits_value_dec_digits)
qed

lemma getBitRate_fixed_number:
  "bitrate (opts st) = JNumber (Num n) \<Longrightarrow> n \<noteq> 0 \<Longrightarrow> \<bar>n\<bar> < 2 ^ 53 \<Longrightarrow>
   getBitRate e song st = (Num n, st)"
  by (simp add: getBitRate_def parseInt_number)

lemma getBitRate_fixed:
  "truthy (bitrate (opts st)) \<Longrightarrow> getBitRate e song st = (parseInt (bitrate (opts st)), st)"
  by (simp add: getBitRate_def)

lemma probed_bit_rate_rejected:
  "ffprobe e song = None \<Longrightarrow> probed_bit_rate e song = Inl ProbeFailure"
  by (simp add: probed_bit_rate_def)

lemma probed_bit_rate_no_streams:
  "ffprobe e song = Some (JObject []) \<Longrightarrow> probed_bit_rate e song = Inl TypeError"
  "ffprobe e song = Some (JObject [(''streams'', JArray [])]) \<Longrightarrow>
   probed_bit_rate e song = Inl TypeError"
  by (simp_all add: probed_bit_rate_def)

lemma getBitRate_probe_error:
  "\<not> truthy (bitrate (opts st)) \<Longrightarrow> probed_bit_rate e song = Inl err \<Longrightarrow>
   getBitRate e song st = (Num 128000, logFn_call (BitrateFallback song) st)"
  by (simp add: getBitRate_def)

text \<open>
  Claim C2.  The claim: \<^verbatim>\<open>getBitRate\<close> returns the fixed bitrate whenever one is set;
  without one, every probing failure, missing data included, gives exactly 128000; and
  the call never fails outward.  The lemmas above are the parts that hold: a set
  bitrate is what is parsed and returned, an integer below \<open>2\<^sup>5\<^sup>3\<close> unchanged, and a probe that
  raises (the tool fails, or \<^verbatim>\<open>streams\<close> is missing or empty) gives 128000.  The
  part that fails: when the probe succeeds and its first stream has no
  \<^verbatim>\<open>bit_rate\<close>, nothing raises, \<^verbatim>\<open>parseInt(undefined)\<close> is evaluated, and the call
  returns \<open>NaN\<close> and logs nothing.
\<close>

theorem getBitRate_missing_bit_rate:
  "getBitRate (e\<lparr>ffprobe := (\<lambda>song. Some stream_without_bit_rate)\<rparr>) song
     (st\<lparr>opts := (opts st)\<lparr>bitrate := JUndefined\<rparr>\<rparr>)
   = (NaN, st\<lparr>opts := (opts st)\<lparr>bitrate := JUndefined\<rparr>\<rparr>)"
  by (simp add: getBitRate_def probed_bit_rate_def stream_without_bit_rate_def parse_eval)

lemma readSongs_bitrate: "readSongs e (options\<lparr>bitrate := b\<rparr>) = readSongs e options"
  by (simp add: readSongs_def split: option.splits)

lemma with_defaults_bitrate:
  "with_defaults (options\<lparr>bitrate := b\<rparr>) = (with_defaults options)\<lparr>bitrate := b\<rparr>"
  by (simp add: with_defaults_def Let_def)

lemma Player_constructor_bitrate:
  "Player_constructor e (options\<lparr>bitrate := b\<rparr>) =
     map_sum (\<lambda>err. err) (\<lambda>st. st\<lparr>opts := (opts st)\<lparr>bitrate := b\<rparr>\<rparr>) (Player_constructor e options)"
  by (cases "readSongs e options")
     (simp_all add: Player_constructor_def readSongs_bitrate logFn_call_def)

lemma Player_constructor_opts: "Player_constructor e options = Inr st \<Longrightarrow> opts st = options"
  by (auto simp: Player_constructor_def logFn_call_def split: sum.splits)

lemma readSongs_error: "readSongs e options = Inl err \<Longrightarrow> err = CatalogUnavailable"
  by (simp add: readSongs_def Let_def split: option.splits)

lemma constructor_falsy_bitrate:
  assumes "\<not> truthy b"
  shows "WebRadio_constructor e (options\<lparr>bitrate := b\<rparr>) =
     map_sum (\<lambda>err. err) (\<lambda>st. st\<lparr>opts := (opts st)\<lparr>bitrate := b\<rparr>\<rparr>)
       (WebRadio_constructor e (options\<lparr>bitrate := JUndefined\<rparr>))"
proof -
  let ?d = "with_defaults options"
  show ?thesis
  proof (cases "Player_constructor e ?d")
    case (Inl err)
    then show ?thesis using assms
      by (simp add: WebRadio_constructor_def with_defaults_bitrate Player_constructor_bitrate Let_def)
  next
    case (Inr st)
    then have "opts st = ?d" by (rule Player_constructor_opts)
    then show ?thesis using assms Inr
      by (cases "readSongs e ?d")
         (simp_all add: WebRadio_constructor_def with_defaults_bitrate Player_constructor_bitrate
            readSongs_bitrate Let_def)
  qed
qed

lemma constructor_bitrate_check:
  assumes "\<not> truthy b"
  shows "WebRadio_constructor e (options\<lparr>bitrate := b\<rparr>) \<noteq> Inl BitrateNotNumber"
proof
  let ?d = "(with_defaults options)\<lparr>bitrate := b\<rparr>"
  assume bad: "WebRadio_constructor e (options\<lparr>bitrate := b\<rparr>) = Inl BitrateNotNumber"
  show False
  proof (cases "Player_constructor e ?d")
    case (Inl err)
    then have "err = CatalogUnavailable"
      by (auto simp: Player_constructor_def split: sum.splits dest: readSongs_error)
    with Inl bad assms show False
      by (simp add: WebRadio_constructor_def with_defaults_bitrate Let_def split: if_splits)
  next
    case (Inr st)
    show False
    proof (cases "readSongs e (opts st)")
      case (Inl err)
      then have "err = CatalogUnavailable" by (rule readSongs_error)
      with Inl Inr bad assms show False
        by (simp add: WebRadio_constructor_def with_defaults_bitrate Let_def split: if_splits)
    next
      case (Inr found)
      with \<open>Player_constructor e ?d = Inr st\<close> bad assms show False
        by (simp add: WebRadio_constructor_def with_defaults_bitrate Let_def split: if_splits)
    qed
  qed
qed

lemma falsy_number:
  "typeof b = ''number'' \<and> \<not> truthy b \<longleftrightarrow> b = JNumber NaN \<or> b = JNumber (Num 0)"
  by (cases b rule: truthy.cases) auto

text \<open>
  Claim C10.  A \<^verbatim>\<open>bitrate\<close> option that is falsy, as the numbers \<open>0\<close> and \<open>NaN\<close> are,
  is treated as no fixed bitrate at all.  The constructor does with it exactly what it
  does with \<^verbatim>\<open>bitrate\<close> undefined, keeping the option as given, and never raises the
  "not a number" error; and \<^verbatim>\<open>getBitRate\<close> does not return the configured value: it
  parses what the probe reports, or falls back to 128000 when the probe raises.
\<close>

theorem falsy_bitrate_is_unset:
  assumes falsy: "\<not> truthy b"
  shows "WebRadio_constructor e (options\<lparr>bitrate := b\<rparr>) =
           map_sum (\<lambda>err. err) (\<lambda>st. st\<lparr>opts := (opts st)\<lparr>bitrate := b\<rparr>\<rparr>)
             (WebRadio_constructor e (options\<lparr>bitrate := JUndefined\<rparr>)) \<and>
         WebRadio_constructor e (options\<lparr>bitrate := b\<rparr>) \<noteq> Inl BitrateNotNumber \<and>
         getBitRate e song (st\<lparr>opts := (opts st)\<lparr>bitrate := b\<rparr>\<rparr>) =
           (case probed_bit_rate e song of
              Inr bitRate \<Rightarrow> (parseInt bitRate, st\<lparr>opts := (opts st)\<lparr>bitrate := b\<rparr>\<rparr>)
            | Inl err \<Rightarrow>
                (Num 128000,
                 logFn_call (BitrateFallback song) (st\<lparr>opts := (opts st)\<lparr>bitrate := b\<rparr>\<rparr>)))"
proof -
  have "getBitRate e song (st\<lparr>opts := (opts st)\<lparr>bitrate := b\<rparr>\<rparr>) =
           (case probed_bit_rate e song of
              Inr bitRate \<Rightarrow> (parseInt bitRate, st\<lparr>opts := (opts st)\<lparr>bitrate := b\<rparr>\<rparr>)
            | Inl err \<Rightarrow>
                (Num 128000,
                 logFn_call (BitrateFallback song) (st\<lparr>opts := (opts st)\<lparr>bitrate := b\<rparr>\<rparr>)))"
    using falsy by (simp add: getBitRate_def)
  with constructor_falsy_bitrate [OF falsy, of e options]
    constructor_bitrate_check [OF falsy, of e options]
  show ?thesis by blast
qed
lemma constructor_demo: "WebRadio_constructor demo_env demo_options = Inr demo_idle"
  by (simp add: WebRadio_constructor_def with_defaults_def demo_options_def demo_env_def
      Player_constructor_def readSongs_def isFile_member_def extname_def logFn_call_def
      demo_idle_def Let_def)

lemma probed_bit_rate_demo: "probed_bit_rate demo_env song = Inr (JString ''192000'')"
  by (simp add: probed_bit_rate_def demo_env_def probe_192k_def)

lemma parseInt_192000: "parseInt (JString ''192000'') = Num 192000"
  by (simp add: parse_eval round_to_double_small below_overflow)

theorem falsy_bitrate_is_unset_witness:
  "typeof (JNumber (Num 0)) = ''number'' \<and> \<not> truthy (JNumber (Num 0)) \<and>
   WebRadio_constructor demo_env (demo_options\<lparr>bitrate := JNumber (Num 0)\<rparr>) =
     Inr (demo_idle\<lparr>opts := (opts demo_idle)\<lparr>bitrate := JNumber (Num 0)\<rparr>\<rparr>) \<and>
   getBitRate demo_env ''a.mp3'' (demo_idle\<lparr>opts := (opts demo_idle)\<lparr>bitrate := JNumber (Num 0)\<rparr>\<rparr>) =
     (Num 192000, demo_idle\<lparr>opts := (opts demo_idle)\<lparr>bitrate := JNumber (Num 0)\<rparr>\<rparr>)"
proof -
  have h1: "typeof (JNumber (Num 0)) = ''number''" by simp
  have h2: "\<not> truthy (JNumber (Num 0))" by simp
  have unset: "demo_options\<lparr>bitrate := JUndefined\<rparr> = demo_options"
    by (simp add: demo_options_def)
  from falsy_bitrate_is_unset [OF h2, of demo_env demo_options "''a.mp3''" demo_idle]
  show ?thesis
    using h1 h2 by (simp add: unset constructor_demo probed_bit_rate_demo parseInt_192000)
qed

section \<open>Track catalog\<close>

lemma readSongs_in_order:
  "readdirSync e = Some audioDir \<Longrightarrow> \<not> truthy (shuffle options) \<Longrightarrow>
   readSongs e options = Inr (map name (filter (\<lambda>item. extname (name item) = ''.mp3'') audioDir))"
  by (simp add: readSongs_def isFile_member_def)

lemma random_index_le:
  assumes "0 \<le> u" "u < 1"
  shows "nat \<lfloor>u * real (Suc i)\<rfloor> \<le> i"
proof -
  have "u * real (Suc i) < real (Suc i)" using assms by simp
  then have "\<lfloor>u * real (Suc i)\<rfloor> < int (Suc i)" by linarith
  then show ?thesis by linarith
qed

lemma shuffle_loop_mset:
  assumes "\<forall>k. 0 \<le> rnd k \<and> rnd k < 1"
  shows "i < length xs \<Longrightarrow> mset (shuffle_loop rnd k i xs) = mset xs"
proof (induction i arbitrary: k xs)
  case 0
  show ?case by simp
next
  case (Suc i)
  let ?j = "nat \<lfloor>rnd k * real (Suc (Suc i))\<rfloor>"
  have j: "?j \<le> Suc i" using assms by (intro random_index_le) simp_all
  let ?swapped = "xs[Suc i := xs ! ?j, ?j := xs ! Suc i]"
  have "mset ?swapped = mset xs"
    using j Suc.prems by (intro mset_swap) simp_all
  moreover have "mset (shuffle_loop rnd (Suc k) i ?swapped) = mset ?swapped"
    using Suc.prems by (intro Suc.IH) simp
  ultimately show ?case by (simp add: Let_def)
qed

lemma readSongs_shuffled_mset:
  assumes "readdirSync e = Some audioDir" "\<forall>k. 0 \<le> random e k \<and> random e k < 1"
  shows "\<exists>found. readSongs e options = Inr found \<and>
           mset found = mset (map name (filter (\<lambda>item. extname (name item) = ''.mp3'') audioDir))"
proof -
  let ?songs = "map name (filter (\<lambda>item. extname (name item) = ''.mp3'') audioDir)"
  have "mset (shuffle_loop (random e) 0 (length ?songs - 1) ?songs) = mset ?songs"
  proof (cases "?songs = []")
    case True
    then show ?thesis by simp
  next
    case False
    then have "length ?songs - 1 < length ?songs" by simp
    with assms(2) show ?thesis by (rule shuffle_loop_mset)
  qed
  then show ?thesis using assms(1) by (simp add: readSongs_def isFile_member_def Let_def)
qed

text \<open>
  Claim C5.  The claim: \<^verbatim>\<open>readSongs\<close> returns exactly the entries that are files of
  type \<^verbatim>\<open>.mp3\<close>, each once, entries that are not files being excluded, and with
  shuffle a permutation of them.  The lemmas above are the parts that hold: the result
  is the names with extension \<^verbatim>\<open>.mp3\<close> in listing order, and a shuffled result is a
  permutation of them.  The part that fails: the filter tests the method
  \<^verbatim>\<open>item.isFile\<close> without calling it, so the test is true of every entry, and a
  directory named \<^verbatim>\<open>album.mp3\<close> is returned as a song.
\<close>

theorem readSongs_keeps_directory_named_mp3:
  "isFile_result (demo_listing ! 0) = False \<and>
   readSongs (e\<lparr>readdirSync := Some demo_listing\<rparr>) (options\<lparr>shuffle := JBool False\<rparr>)
     = Inr [''album.mp3'', ''a.mp3'']"
  by (simp add: readSongs_def isFile_member_def extname_def demo_listing_def)

section \<open>Sink registry\<close>

lemma delete_absent: "map_of xs k = None \<Longrightarrow> AList.delete k xs = xs"
  by (induction xs) (auto split: if_splits)

lemma map_of_delete_self: "map_of (AList.delete k xs) k = None"
  by (simp add: AList.delete_eq map_of_eq_None_iff image_iff)

lemma removeResponseSink_absent:
  "map_of (sinks st) sinkId = None \<Longrightarrow>
   removeResponseSink sinkId st = logFn_call (StreamClosedFor sinkId) st"
  by (simp add: removeResponseSink_def delete_absent Let_def)

lemma removeResponseSink_sinks:
  "sinks (removeResponseSink sinkId st) = AList.delete sinkId (sinks st)"
  by (simp add: removeResponseSink_def logFn_call_def split: option.splits)

lemma removeResponseSink_twice:
  "removeResponseSink sinkId (removeResponseSink sinkId st) =
   logFn_call (StreamClosedFor sinkId) (removeResponseSink sinkId st)"
  by (rule removeResponseSink_absent) (simp add: removeResponseSink_sinks map_of_delete_self)

lemma removeResponseSink_present:
  "map_of (sinks st) sinkId = Some a \<Longrightarrow> a < length (passThroughs st) \<Longrightarrow>
   destroyed (passThroughs (removeResponseSink sinkId st) ! a)"
  by (simp add: removeResponseSink_def logFn_call_def destroy_def)

text \<open>
  Claim C8.  \<^verbatim>\<open>removeResponseSink\<close> is idempotent on the registry: a second call with
  the same identifier changes neither the map nor any sink object (it only logs
  again).  The first call deletes the identifier and nothing else from the map; when
  the identifier was present its sink is destroyed, and when it was absent the map and
  the sink objects are as before.
\<close>

theorem removeResponseSink_idempotent:
  "sinks (removeResponseSink sinkId (removeResponseSink sinkId st)) =
     sinks (removeResponseSink sinkId st) \<and>
   passThroughs (removeResponseSink sinkId (removeResponseSink sinkId st)) =
     passThroughs (removeResponseSink sinkId st) \<and>
   map_of (sinks (removeResponseSink sinkId st)) = (map_of (sinks st))(sinkId := None) \<and>
   (\<forall>a. map_of (sinks st) sinkId = Some a \<and> a < length (passThroughs st) \<longrightarrow>
        destroyed (passThroughs (removeResponseSink sinkId st) ! a)) \<and>
   (map_of (sinks st) sinkId = None \<longrightarrow>
      sinks (removeResponseSink sinkId st) = sinks st \<and>
      passThroughs (removeResponseSink sinkId st) = passThroughs st)"
proof -
  have twice: "removeResponseSink sinkId (removeResponseSink sinkId st) =
      logFn_call (StreamClosedFor sinkId) (removeResponseSink sinkId st)"
    by (rule removeResponseSink_twice)
  have absent: "map_of (sinks st) sinkId = None \<longrightarrow>
      sinks (removeResponseSink sinkId st) = sinks st \<and>
      passThroughs (removeResponseSink sinkId st) = passThroughs st"
    by (simp add: removeResponseSink_absent logFn_call_def)
  have "map_of (sinks (removeResponseSink sinkId st)) = (map_of (sinks st))(sinkId := None)"
    by (simp add: removeResponseSink_sinks delete_conv')
  then show ?thesis
    using absent by (simp add: twice logFn_call_def removeResponseSink_present)
qed

theorem removeResponseSink_idempotent_witness:
  "map_of (sinks demo_playing) ''s1'' = Some 0 \<and> 0 < length (passThroughs demo_playing) \<and>
   destroyed (passThroughs (removeResponseSink ''s1'' demo_playing) ! 0) \<and>
   sinks (removeResponseSink ''s1'' demo_playing) = [] \<and>
   sinks (removeResponseSink ''s1'' (removeResponseSink ''s1'' demo_playing)) = [] \<and>
   map_of (sinks demo_playing) ''zz'' = None \<and>
   sinks (removeResponseSink ''zz'' demo_playing) = sinks demo_playing"
proof -
  have present: "map_of (sinks demo_playing) ''s1'' = Some 0 \<and> 0 < length (passThroughs demo_playing)"
    by (simp add: demo_playing_def)
  have absent: "map_of (sinks demo_playing) ''zz'' = None"
    by (simp add: demo_playing_def)
  have once: "sinks (removeResponseSink ''s1'' demo_playing) = []"
    by (simp add: removeResponseSink_sinks demo_playing_def)
  from removeResponseSink_idempotent [of "''s1''" demo_playing]
    removeResponseSink_idempotent [of "''zz''" demo_playing]
  show ?thesis using present absent once by simp
qed
lemma update_snd_subset: "snd ` set (AList.update k v xs) \<subseteq> insert v (snd ` set xs)"
  by (induction xs) auto

lemma update_snd_distinct:
  "distinct (map snd xs) \<Longrightarrow> v \<notin> snd ` set xs \<Longrightarrow> distinct (map snd (AList.update k v xs))"
proof (induction xs)
  case Nil
  show ?case by simp
next
  case (Cons p xs)
  have sub: "snd ` set (AList.update k v xs) \<subseteq> insert v (snd ` set xs)"
    by (rule update_snd_subset)
  show ?case
  proof (cases "fst p = k")
    case True
    with Cons.prems show ?thesis by simp
  next
    case False
    have "snd p \<notin> snd ` set (AList.update k v xs)"
      using sub Cons.prems by auto
    with False Cons show ?thesis by simp
  qed
qed

lemma update_mem: "(k, v) \<in> set (AList.update k v xs)"
  by (induction xs) auto

lemma delete_snd_subset: "snd ` set (AList.delete k xs) \<subseteq> snd ` set xs"
  by (auto simp: AList.delete_eq)

lemma delete_snd_distinct: "distinct (map snd xs) \<Longrightarrow> distinct (map snd (AList.delete k xs))"
  by (simp add: AList.delete_eq distinct_map_filter)

lemma delete_snd_removed:
  "distinct (map snd xs) \<Longrightarrow> map_of xs k = Some a \<Longrightarrow> a \<notin> snd ` set (AList.delete k xs)"
proof (induction xs)
  case Nil
  then show ?case by simp
next
  case (Cons p xs)
  show ?case
  proof (cases "fst p = k")
    case True
    with Cons.prems have "snd p = a" "a \<notin> snd ` set xs" by (auto split: if_splits)
    with True delete_snd_subset [of k xs] show ?thesis by (auto simp: AList.delete_eq)
  next
    case False
    with Cons.prems have "map_of xs k = Some a" "distinct (map snd xs)" "snd p \<noteq> a"
      by (auto split: if_splits dest: map_of_SomeD intro: rev_image_eqI)
    with False Cons.IH show ?thesis by (auto simp: AList.delete_eq)
  qed
qed

lemma for_each_sink_length [simp]: "length (for_each_sink f reg store) = length store"
  unfolding for_each_sink_def by (induction reg arbitrary: store) (auto split: prod.splits)

lemma for_each_sink_other:
  "a \<notin> snd ` set reg \<Longrightarrow> for_each_sink f reg store ! a = store ! a"
  unfolding for_each_sink_def by (induction reg arbitrary: store) (auto split: prod.splits)

lemma for_each_sink_at:
  "distinct (map snd reg) \<Longrightarrow> a \<in> snd ` set reg \<Longrightarrow> a < length store \<Longrightarrow>
   for_each_sink f reg store ! a = f (store ! a)"
proof (induction reg arbitrary: store)
  case Nil
  then show ?case by simp
next
  case (Cons p reg)
  obtain k b where p: "p = (k, b)" by (cases p)
  have step: "for_each_sink f (p # reg) store = for_each_sink f reg (store[b := f (store ! b)])"
    by (simp add: for_each_sink_def p)
  show ?case
  proof (cases "a = b")
    case True
    with Cons.prems p have "a \<notin> snd ` set reg" by auto
    then have "for_each_sink f reg (store[b := f (store ! b)]) ! a = store[b := f (store ! b)] ! a"
      by (rule for_each_sink_other)
    with True Cons.prems show ?thesis by (simp add: step)
  next
    case False
    with Cons.prems p have "a \<in> snd ` set reg" "distinct (map snd reg)" by auto
    then have "for_each_sink f reg (store[b := f (store ! b)]) ! a = f (store[b := f (store ! b)] ! a)"
      using Cons.prems(3) by (intro Cons.IH) simp_all
    with False show ?thesis by (simp add: step)
  qed
qed

lemma store_ok_sinkD:
  "store_ok st \<Longrightarrow> (k, a) \<in> set (sinks st) \<Longrightarrow> a < length (passThroughs st) \<and> a \<in> snd ` set (sinks st)"
  by (force simp: store_ok_def list_all_iff)

lemma broadcastChunk_at:
  "store_ok st \<Longrightarrow> (k, a) \<in> set (sinks st) \<Longrightarrow>
   passThroughs (broadcastChunk c st) ! a = sink_write c (passThroughs st ! a)"
  using store_ok_sinkD [of st k a]
  by (simp add: broadcastChunk_def for_each_sink_at store_ok_def)

lemma broadcastChunk_other:
  "a \<notin> snd ` set (sinks st) \<Longrightarrow> passThroughs (broadcastChunk c st) ! a = passThroughs st ! a"
  by (simp add: broadcastChunk_def for_each_sink_other)

lemma broadcastChunk_frame:
  "broadcastChunk c st = st\<lparr>passThroughs := passThroughs (broadcastChunk c st)\<rparr>"
  by (simp add: broadcastChunk_def)

lemma broadcastChunk_store_ok: "store_ok st \<Longrightarrow> store_ok (broadcastChunk c st)"
  by (simp add: broadcastChunk_def store_ok_def split: option.splits)

lemma on_data_frame: "on_data c st = st\<lparr>passThroughs := passThroughs (on_data c st)\<rparr>"
  by (simp add: on_data_def broadcastChunk_def)

lemma on_data_sinks [simp]: "sinks (on_data c st) = sinks st"
  by (simp add: on_data_def broadcastChunk_def)

lemma on_data_length [simp]: "length (passThroughs (on_data c st)) = length (passThroughs st)"
  by (simp add: on_data_def broadcastChunk_def)

lemma on_data_store_ok: "store_ok st \<Longrightarrow> store_ok (on_data c st)"
  by (simp add: on_data_def broadcastChunk_store_ok)

lemma on_data_at:
  "store_ok st \<Longrightarrow> (k, a) \<in> set (sinks st) \<Longrightarrow>
   passThroughs (on_data c st) ! a = sink_write c (passThroughs st ! a)"
  by (simp add: on_data_def broadcastChunk_at)

lemma on_data_other:
  "a \<notin> snd ` set (sinks st) \<Longrightarrow> passThroughs (on_data c st) ! a = passThroughs st ! a"
  by (simp add: on_data_def broadcastChunk_other)

lemma fold_on_data_frame:
  "fold on_data cs st = st\<lparr>passThroughs := passThroughs (fold on_data cs st)\<rparr>"
proof (induction cs arbitrary: st)
  case Nil
  show ?case by simp
next
  case (Cons c cs)
  have "fold on_data (c # cs) st = fold on_data cs (on_data c st)"
    by simp
  also have "\<dots> = (on_data c st)\<lparr>passThroughs := passThroughs (fold on_data cs (on_data c st))\<rparr>"
    by (rule Cons.IH)
  also have "\<dots> = st\<lparr>passThroughs := passThroughs (fold on_data cs (on_data c st))\<rparr>"
    by (subst on_data_frame) simp
  finally show ?case by simp
qed

lemma fold_on_data_length [simp]:
  "length (passThroughs (fold on_data cs st)) = length (passThroughs st)"
  by (induction cs arbitrary: st) simp_all

lemma fold_on_data_sinks [simp]: "sinks (fold on_data cs st) = sinks st"
  by (induction cs arbitrary: st) simp_all

lemma fold_on_data_store_ok: "store_ok st \<Longrightarrow> store_ok (fold on_data cs st)"
  by (induction cs arbitrary: st) (simp_all add: on_data_store_ok)

lemma fold_on_data_at:
  "store_ok st \<Longrightarrow> (k, a) \<in> set (sinks st) \<Longrightarrow>
   \<not> destroyed (passThroughs st ! a) \<Longrightarrow> \<not> writableEnded (passThroughs st ! a) \<Longrightarrow>
   passThroughs (fold on_data cs st) ! a =
     (passThroughs st ! a)\<lparr>chunks := chunks (passThroughs st ! a) @ cs\<rparr>"
proof (induction cs arbitrary: st)
  case Nil
  show ?case by simp
next
  case (Cons c cs)
  let ?st1 = "on_data c st"
  have at: "passThroughs ?st1 ! a = (passThroughs st ! a)\<lparr>chunks := chunks (passThroughs st ! a) @ [c]\<rparr>"
    using Cons.prems by (simp add: on_data_at sink_write_def)
  have ok: "store_ok ?st1" using Cons.prems(1) by (rule on_data_store_ok)
  have reg: "(k, a) \<in> set (sinks ?st1)" using Cons.prems(2) by simp
  have "passThroughs (fold on_data cs ?st1) ! a =
     (passThroughs ?st1 ! a)\<lparr>chunks := chunks (passThroughs ?st1 ! a) @ cs\<rparr>"
    using ok reg Cons.prems(3,4) by (intro Cons.IH) (simp_all add: at)
  then show ?case by (simp add: at)
qed

lemma fold_on_data_other:
  "a \<notin> snd ` set (sinks st) \<Longrightarrow> passThroughs (fold on_data cs st) ! a = passThroughs st ! a"
  by (induction cs arbitrary: st) (simp_all add: on_data_other)

lemma endAll_at:
  "store_ok st \<Longrightarrow> (k, a) \<in> set (sinks st) \<Longrightarrow>
   passThroughs (endAll st) ! a = sink_end (passThroughs st ! a)"
  using store_ok_sinkD [of st k a]
  by (simp add: endAll_def for_each_sink_at store_ok_def)

lemma endAll_other:
  "a \<notin> snd ` set (sinks st) \<Longrightarrow> passThroughs (endAll st) ! a = passThroughs st ! a"
  by (simp add: endAll_def for_each_sink_other)

lemma endAll_sinks [simp]: "sinks (endAll st) = []"
  by (simp add: endAll_def)

section \<open>The engine's transitions\<close>

lemma destroy_current_Some:
  "currentSongStream st = Some s \<Longrightarrow>
   destroy_current st =
     Inr (st\<lparr>readStreams := (readStreams st)[s := destroy (readStreams st ! s)], currentSongStream := None\<rparr>)"
  by (simp add: destroy_current_def)

lemma on_end_not_playing:
  "\<not> playing st \<Longrightarrow> currentSongStream st = Some s \<Longrightarrow>
   on_end e st =
     (Returned, logFn_call StoppedPlaying (endAll
        (st\<lparr>readStreams := (readStreams st)[s := destroy (readStreams st ! s)], currentSongStream := None\<rparr>)))"
  by (simp add: on_end_def destroy_current_Some)

lemma playNextSong_exhausted:
  "songs st = [] \<Longrightarrow> \<not> truthy (loop (opts st)) \<Longrightarrow> currentSongStream st = Some s \<Longrightarrow>
   playNextSong e st =
     (Returned, logFn_call StoppedPlaying (endAll
        (st\<lparr>logged := logged st @ [NoMoreSongs],
            readStreams := (readStreams st)[s := destroy (readStreams st ! s)],
            currentSongStream := None, playing := False\<rparr>)))"
  by (simp add: playNextSong_def playNextSong_begin_def destroy_current_def logFn_call_def Let_def)

lemma Player_stop_hard:
  "currentSongStream st = Some s \<Longrightarrow>
   Player_stop False st =
     (Returned, logFn_call StoppedPlaying (endAll
        (st\<lparr>songs := [], playing := False,
            readStreams := (readStreams st)[s := destroy (readStreams st ! s)],
            currentSongStream := None\<rparr>)))"
  by (simp add: Player_stop_def destroy_current_def)

lemma Player_stop_graceful:
  "Player_stop True st = (Returned, st\<lparr>songs := [], playing := False, logged := logged st @ [WillStopAfterCurrentSong]\<rparr>)"
  by (simp add: Player_stop_def logFn_call_def)

lemma logged_endAll_fields [simp]:
  "sinks (logFn_call m (endAll x)) = []"
  "currentSongStream (logFn_call m (endAll x)) = currentSongStream x"
  "playing (logFn_call m (endAll x)) = playing x"
  "songs (logFn_call m (endAll x)) = songs x"
  "currentSong (logFn_call m (endAll x)) = currentSong x"
  "readStreams (logFn_call m (endAll x)) = readStreams x"
  "passThroughs (logFn_call m (endAll x)) = passThroughs (endAll x)"
  "logged (logFn_call m (endAll x)) = logged x @ [m]"
  "opts (logFn_call m (endAll x)) = opts x"
  by (simp_all add: logFn_call_def endAll_def)

lemma endAll_ended:
  assumes "store_ok st" "(k, a) \<in> set (sinks st)"
  shows "writableEnded (passThroughs (endAll st) ! a)"
  using endAll_at [OF assms] by (simp add: sink_end_def)

text \<open>
  Claim C4.  When the current song's stream ends, the queue is empty and looping is
  off, the radio stops: the \<^verbatim>\<open>end\<close> handler returns, the current song stream is
  destroyed and the field is cleared, every registered sink is ended, the registry is
  empty, and the radio is marked as not playing.
\<close>

theorem track_end_exhausted_stops:
  assumes ok: "store_ok st" and cur: "currentSongStream st = Some s"
    and q: "songs st = []" and nl: "\<not> truthy (loop (opts st))"
  shows "fst (on_end e st) = Returned \<and>
         currentSongStream (snd (on_end e st)) = None \<and>
         destroyed (readStreams (snd (on_end e st)) ! s) \<and>
         \<not> playing (snd (on_end e st)) \<and>
         sinks (snd (on_end e st)) = [] \<and>
         (\<forall>(k, a) \<in> set (sinks st). writableEnded (passThroughs (snd (on_end e st)) ! a))"
proof -
  have s: "s < length (readStreams st)" using ok cur by (simp add: store_ok_def)
  show ?thesis
  proof (cases "playing st")
    case True
    let ?x = "st\<lparr>logged := logged st @ [NoMoreSongs],
            readStreams := (readStreams st)[s := destroy (readStreams st ! s)],
            currentSongStream := None, playing := False\<rparr>"
    have eq: "on_end e st = (Returned, logFn_call StoppedPlaying (endAll ?x))"
      using True playNextSong_exhausted [OF q nl cur] by (simp add: on_end_def)
    have "store_ok ?x" using ok by (simp add: store_ok_def)
    then have "\<forall>(k, a) \<in> set (sinks st). writableEnded (passThroughs (endAll ?x) ! a)"
      by (auto intro: endAll_ended)
    then show ?thesis using s by (simp add: eq destroy_def)
  next
    case False
    let ?x = "st\<lparr>readStreams := (readStreams st)[s := destroy (readStreams st ! s)], currentSongStream := None\<rparr>"
    have eq: "on_end e st = (Returned, logFn_call StoppedPlaying (endAll ?x))"
      using False cur by (rule on_end_not_playing)
    have "store_ok ?x" using ok by (simp add: store_ok_def)
    then have "\<forall>(k, a) \<in> set (sinks st). writableEnded (passThroughs (endAll ?x) ! a)"
      by (auto intro: endAll_ended)
    then show ?thesis using s False by (simp add: eq destroy_def)
  qed
qed

theorem track_end_exhausted_stops_witness:
  "store_ok demo_last_song \<and> currentSongStream demo_last_song = Some 0 \<and>
   songs demo_last_song = [] \<and> \<not> truthy (loop (opts demo_last_song)) \<and>
   fst (on_end demo_env demo_last_song) = Returned \<and>
   currentSongStream (snd (on_end demo_env demo_last_song)) = None \<and>
   destroyed (readStreams (snd (on_end demo_env demo_last_song)) ! 0) \<and>
   \<not> playing (snd (on_end demo_env demo_last_song)) \<and>
   sinks (snd (on_end demo_env demo_last_song)) = [] \<and>
   writableEnded (passThroughs (snd (on_end demo_env demo_last_song)) ! 0)"
proof -
  have ok: "store_ok demo_last_song"
    by (simp add: store_ok_def demo_last_song_def demo_playing_def)
  have cur: "currentSongStream demo_last_song = Some 0"
    by (simp add: demo_last_song_def demo_playing_def)
  have q: "songs demo_last_song = []"
    by (simp add: demo_last_song_def)
  have nl: "\<not> truthy (loop (opts demo_last_song))"
    by (simp add: demo_last_song_def demo_playing_def demo_options_def)
  have reg: "sinks demo_last_song = [(''s1'', 0)]"
    by (simp add: demo_last_song_def demo_playing_def)
  from track_end_exhausted_stops [OF ok cur q nl, of demo_env]
  show ?thesis using ok cur q nl by (simp add: reg)
qed

lemma fold_on_data_fields [simp]:
  "currentSongStream (fold on_data cs st) = currentSongStream st"
  "songs (fold on_data cs st) = songs st"
  "currentSong (fold on_data cs st) = currentSong st"
  "playing (fold on_data cs st) = playing st"
  "readStreams (fold on_data cs st) = readStreams st"
  "logged (fold on_data cs st) = logged st"
  "opts (fold on_data cs st) = opts st"
  by (subst fold_on_data_frame, simp)+

lemma WebRadio_stop_graceful:
  "playing st \<Longrightarrow>
   WebRadio_stop True st =
     (Returned, st\<lparr>songs := [], playing := False, logged := logged st @ [WillStopAfterCurrentSong]\<rparr>)"
  by (simp add: WebRadio_stop_def Player_stop_graceful)

lemma graceful_window_fields:
  assumes "playing st"
  shows "currentSongStream (graceful_window st cs) = currentSongStream st"
    "songs (graceful_window st cs) = []"
    "currentSong (graceful_window st cs) = currentSong st"
    "playing (graceful_window st cs) = False"
    "readStreams (graceful_window st cs) = readStreams st"
    "logged (graceful_window st cs) = logged st @ [WillStopAfterCurrentSong]"
    "opts (graceful_window st cs) = opts st"
    "sinks (graceful_window st cs) = sinks st"
    "length (passThroughs (graceful_window st cs)) = length (passThroughs st)"
  using assms by (simp_all add: graceful_window_def WebRadio_stop_graceful)

lemma graceful_window_store_ok:
  "playing st \<Longrightarrow> store_ok st \<Longrightarrow> store_ok (graceful_window st cs)"
  by (simp add: store_ok_def graceful_window_fields split: option.splits)

lemma sinks_liveD:
  "sinks_live st \<Longrightarrow> (k, a) \<in> set (sinks st) \<Longrightarrow>
   \<not> destroyed (passThroughs st ! a) \<and> \<not> writableEnded (passThroughs st ! a)"
  by (force simp: sinks_live_def list_all_iff)

lemma graceful_window_at:
  assumes "playing st" "store_ok st" "sinks_live st" "(k, a) \<in> set (sinks st)"
  shows "passThroughs (graceful_window st cs) ! a =
     (passThroughs st ! a)\<lparr>chunks := chunks (passThroughs st ! a) @ cs\<rparr>"
proof -
  let ?x = "st\<lparr>songs := [], playing := False, logged := logged st @ [WillStopAfterCurrentSong]\<rparr>"
  have "store_ok ?x" using assms(2) by (simp add: store_ok_def)
  moreover have "(k, a) \<in> set (sinks ?x)" using assms(4) by simp
  moreover have "\<not> destroyed (passThroughs ?x ! a)" "\<not> writableEnded (passThroughs ?x ! a)"
    using sinks_liveD [OF assms(3,4)] by simp_all
  ultimately have "passThroughs (fold on_data cs ?x) ! a =
     (passThroughs ?x ! a)\<lparr>chunks := chunks (passThroughs ?x ! a) @ cs\<rparr>"
    by (rule fold_on_data_at)
  then show ?thesis using assms(1) by (simp add: graceful_window_def WebRadio_stop_graceful)
qed

lemma demo_playing_facts:
  "store_ok demo_playing" "sinks_live demo_playing" "playing demo_playing"
  "currentSongStream demo_playing = Some 0" "sinks demo_playing = [(''s1'', 0)]"
  "passThroughs demo_playing = [\<lparr>destroyed = False, chunks = [], writableEnded = False\<rparr>]"
  "currentSong demo_playing = Some ''a.mp3''" "length (readStreams demo_playing) = 1"
  by (simp_all add: store_ok_def sinks_live_def demo_playing_def new_PassThrough_def)

text \<open>
  Claim C1.  The claim: \<^verbatim>\<open>stop(false)\<close> called in the window of a graceful stop takes
  the radio to Stopped.  The public \<^verbatim>\<open>WebRadio.stop\<close> tests the player's \<open>playing\<close>
  flag first, and \<^verbatim>\<open>stop(true)\<close> has already cleared it.  Amended: in that window
  \<^verbatim>\<open>WebRadio.stop(false)\<close> raises the not-playing error and changes nothing, so the
  current song plays on to its end; the player's own \<^verbatim>\<open>stop(false)\<close>, which has no
  such test, does stop the radio there: the queue is empty, the current song stream is
  destroyed and cleared, every registered sink is ended, the registry is empty, and
  the radio is marked as not playing.
\<close>

theorem hard_stop_in_graceful_window:
  assumes ok: "store_ok st" and pl: "playing st" and cur: "currentSongStream st = Some s"
  shows "WebRadio_stop False (graceful_window st cs) = (Threw NotPlaying, graceful_window st cs) \<and>
         fst (Player_stop False (graceful_window st cs)) = Returned \<and>
         songs (snd (Player_stop False (graceful_window st cs))) = [] \<and>
         currentSongStream (snd (Player_stop False (graceful_window st cs))) = None \<and>
         destroyed (readStreams (snd (Player_stop False (graceful_window st cs))) ! s) \<and>
         sinks (snd (Player_stop False (graceful_window st cs))) = [] \<and>
         \<not> playing (snd (Player_stop False (graceful_window st cs))) \<and>
         (\<forall>(k, a) \<in> set (sinks st).
            writableEnded (passThroughs (snd (Player_stop False (graceful_window st cs))) ! a))"
proof -
  let ?w = "graceful_window st cs"
  let ?x = "?w\<lparr>songs := [], playing := False,
            readStreams := (readStreams ?w)[s := destroy (readStreams ?w ! s)],
            currentSongStream := None\<rparr>"
  have s: "s < length (readStreams st)" using ok cur by (simp add: store_ok_def)
  have guard: "WebRadio_stop False ?w = (Threw NotPlaying, ?w)"
    by (simp add: WebRadio_stop_def graceful_window_fields [OF pl])
  have curw: "currentSongStream ?w = Some s" using cur by (simp add: graceful_window_fields [OF pl])
  have eq: "Player_stop False ?w = (Returned, logFn_call StoppedPlaying (endAll ?x))"
    using curw by (rule Player_stop_hard)
  have "store_ok ?w" using pl ok by (rule graceful_window_store_ok)
  then have "store_ok ?x" by (simp add: store_ok_def)
  then have "\<forall>(k, a) \<in> set (sinks ?x). writableEnded (passThroughs (endAll ?x) ! a)"
    by (auto intro: endAll_ended)
  then have ended: "\<forall>(k, a) \<in> set (sinks st). writableEnded (passThroughs (endAll ?x) ! a)"
    by (simp add: graceful_window_fields [OF pl])
  show ?thesis using s ended by (simp add: guard eq destroy_def graceful_window_fields [OF pl])
qed

theorem hard_stop_in_graceful_window_witness:
  "store_ok demo_playing \<and> playing demo_playing \<and> currentSongStream demo_playing = Some 0 \<and>
   WebRadio_stop False (graceful_window demo_playing [''x'']) =
     (Threw NotPlaying, graceful_window demo_playing [''x'']) \<and>
   fst (Player_stop False (graceful_window demo_playing [''x''])) = Returned \<and>
   sinks (snd (Player_stop False (graceful_window demo_playing [''x'']))) = [] \<and>
   currentSongStream (snd (Player_stop False (graceful_window demo_playing [''x'']))) = None \<and>
   destroyed (readStreams (snd (Player_stop False (graceful_window demo_playing [''x'']))) ! 0) \<and>
   writableEnded (passThroughs (snd (Player_stop False (graceful_window demo_playing [''x'']))) ! 0)"
proof -
  note f = demo_playing_facts
  from hard_stop_in_graceful_window [OF f(1) f(3) f(4), of "[''x'']"]
  show ?thesis using f(1) f(3) f(4) by (simp add: f(5))
qed

theorem hard_stop_after_graceful_stop_raises:
  "playing demo_playing \<and>
   fst (WebRadio_stop True demo_playing) = Returned \<and>
   fst (WebRadio_stop False (snd (WebRadio_stop True demo_playing))) = Threw NotPlaying \<and>
   sinks (snd (WebRadio_stop False (snd (WebRadio_stop True demo_playing)))) = [(''s1'', 0)] \<and>
   currentSongStream (snd (WebRadio_stop False (snd (WebRadio_stop True demo_playing)))) = Some 0 \<and>
   \<not> destroyed (readStreams (snd (WebRadio_stop False (snd (WebRadio_stop True demo_playing)))) ! 0) \<and>
   \<not> writableEnded (passThroughs (snd (WebRadio_stop False (snd (WebRadio_stop True demo_playing)))) ! 0)"
  by (simp add: WebRadio_stop_def Player_stop_def logFn_call_def demo_playing_def
      createReadStream_def new_PassThrough_def)

text \<open>
  Claim C3.  \<^verbatim>\<open>stop(true)\<close> in the middle of a song: the call returns; while the
  remaining chunks \<open>cs\<close> of the song are broadcast the registry and the current song
  stream stay as they were and every registered sink has received the chunks broadcast
  so far, without being ended; once the stream has ended every registered sink has
  received all of \<open>cs\<close> and is ended, the registry is empty, the song stream is
  destroyed and cleared, and no other song was started: no new stream was opened, the
  current song is the same, the queue is empty, the radio is not playing, and the only
  messages logged are those of the stop.
\<close>

theorem graceful_stop_finishes_current_track:
  assumes ok: "store_ok st" and live: "sinks_live st" and pl: "playing st"
    and cur: "currentSongStream st = Some s"
  shows "fst (WebRadio_stop True st) = Returned \<and>
         (\<forall>n \<le> length cs.
            sinks (graceful_window st (take n cs)) = sinks st \<and>
            currentSongStream (graceful_window st (take n cs)) = Some s \<and>
            (\<forall>(k, a) \<in> set (sinks st).
               passThroughs (graceful_window st (take n cs)) ! a =
                 (passThroughs st ! a)\<lparr>chunks := chunks (passThroughs st ! a) @ take n cs\<rparr>)) \<and>
         (\<forall>(k, a) \<in> set (sinks st).
            passThroughs (play_rest cs e (snd (WebRadio_stop True st))) ! a =
              (passThroughs st ! a)\<lparr>chunks := chunks (passThroughs st ! a) @ cs, writableEnded := True\<rparr>) \<and>
         sinks (play_rest cs e (snd (WebRadio_stop True st))) = [] \<and>
         currentSongStream (play_rest cs e (snd (WebRadio_stop True st))) = None \<and>
         destroyed (readStreams (play_rest cs e (snd (WebRadio_stop True st))) ! s) \<and>
         length (readStreams (play_rest cs e (snd (WebRadio_stop True st)))) = length (readStreams st) \<and>
         currentSong (play_rest cs e (snd (WebRadio_stop True st))) = currentSong st \<and>
         songs (play_rest cs e (snd (WebRadio_stop True st))) = [] \<and>
         \<not> playing (play_rest cs e (snd (WebRadio_stop True st))) \<and>
         logged (play_rest cs e (snd (WebRadio_stop True st))) =
           logged st @ [WillStopAfterCurrentSong, StoppedPlaying]"
proof -
  let ?w = "graceful_window st cs"
  let ?x = "?w\<lparr>readStreams := (readStreams ?w)[s := destroy (readStreams ?w ! s)], currentSongStream := None\<rparr>"
  have s: "s < length (readStreams st)" using ok cur by (simp add: store_ok_def)
  have ret: "fst (WebRadio_stop True st) = Returned" using pl by (simp add: WebRadio_stop_graceful)
  have during: "\<forall>n \<le> length cs.
            sinks (graceful_window st (take n cs)) = sinks st \<and>
            currentSongStream (graceful_window st (take n cs)) = Some s \<and>
            (\<forall>(k, a) \<in> set (sinks st).
               passThroughs (graceful_window st (take n cs)) ! a =
                 (passThroughs st ! a)\<lparr>chunks := chunks (passThroughs st ! a) @ take n cs\<rparr>)"
    using cur by (auto simp: graceful_window_fields [OF pl] graceful_window_at [OF pl ok live])
  have rest: "play_rest cs e (snd (WebRadio_stop True st)) = logFn_call StoppedPlaying (endAll ?x)"
    unfolding play_rest_def graceful_window_def [symmetric]
    by (subst on_end_not_playing [where s = s]) (simp_all add: graceful_window_fields [OF pl] cur)
  have "store_ok ?w" using pl ok by (rule graceful_window_store_ok)
  then have okx: "store_ok ?x" by (simp add: store_ok_def)
  have "\<forall>(k, a) \<in> set (sinks st). passThroughs (endAll ?x) ! a =
      (passThroughs st ! a)\<lparr>chunks := chunks (passThroughs st ! a) @ cs, writableEnded := True\<rparr>"
  proof (clarify)
    fix k a assume reg: "(k, a) \<in> set (sinks st)"
    then have "(k, a) \<in> set (sinks ?x)" by (simp add: graceful_window_fields [OF pl])
    with okx have "passThroughs (endAll ?x) ! a = sink_end (passThroughs ?x ! a)" by (rule endAll_at)
    then show "passThroughs (endAll ?x) ! a =
      (passThroughs st ! a)\<lparr>chunks := chunks (passThroughs st ! a) @ cs, writableEnded := True\<rparr>"
      by (simp add: sink_end_def graceful_window_at [OF pl ok live reg])
  qed
  then show ?thesis
    using s ret during by (simp add: rest destroy_def graceful_window_fields [OF pl])
qed

theorem graceful_stop_finishes_current_track_witness:
  "store_ok demo_playing \<and> sinks_live demo_playing \<and> playing demo_playing \<and>
   currentSongStream demo_playing = Some 0 \<and>
   sinks (graceful_window demo_playing (take 1 [''x'', ''y''])) = [(''s1'', 0)] \<and>
   passThroughs (graceful_window demo_playing (take 1 [''x'', ''y''])) ! 0 =
     \<lparr>destroyed = False, chunks = [''x''], writableEnded = False\<rparr> \<and>
   passThroughs (play_rest [''x'', ''y''] demo_env (snd (WebRadio_stop True demo_playing))) ! 0 =
     \<lparr>destroyed = False, chunks = [''x'', ''y''], writableEnded = True\<rparr> \<and>
   sinks (play_rest [''x'', ''y''] demo_env (snd (WebRadio_stop True demo_playing))) = [] \<and>
   currentSong (play_rest [''x'', ''y''] demo_env (snd (WebRadio_stop True demo_playing))) =
     Some ''a.mp3'' \<and>
   length (readStreams (play_rest [''x'', ''y''] demo_env (snd (WebRadio_stop True demo_playing)))) = 1"
proof -
  note f = demo_playing_facts
  note main = graceful_stop_finishes_current_track [OF f(1) f(2) f(3) f(4), of "[''x'', ''y'']" demo_env]
  have one: "1 \<le> length [''x'', ''y'']" by simp
  note during = main [THEN conjunct2, THEN conjunct1, rule_format, OF one]
  from main during show ?thesis
    using f(1) f(2) f(3) f(4) by (simp add: f(5) f(6) f(7) f(8))
qed

lemma createResponseSink_eq:
  "createResponseSink e st =
     ((randomBytes e, length (passThroughs st)),
      st\<lparr>logged := logged st @ [NewSinkCreated (randomBytes e)],
          passThroughs := passThroughs st @ [new_PassThrough],
          sinks := AList.update (randomBytes e) (length (passThroughs st)) (sinks st)\<rparr>)"
  by (simp add: createResponseSink_def logFn_call_def Let_def)

lemma createResponseSink_store_ok:
  assumes "store_ok st"
  shows "store_ok (snd (createResponseSink e st))"
proof -
  let ?a = "length (passThroughs st)"
  let ?reg = "AList.update (randomBytes e) ?a (sinks st)"
  have old: "\<forall>b \<in> snd ` set (sinks st). b < ?a"
    using assms by (auto simp: store_ok_def list_all_iff)
  then have fresh: "?a \<notin> snd ` set (sinks st)" by auto
  have d: "distinct (map snd ?reg)"
    using assms fresh by (intro update_snd_distinct) (simp_all add: store_ok_def)
  have "\<forall>b \<in> snd ` set ?reg. b < Suc ?a"
    using update_snd_subset [of "randomBytes e" ?a "sinks st"] old by fastforce
  then show ?thesis using d assms
    by (simp add: createResponseSink_eq store_ok_def list_all_iff)
qed

lemma connect_online:
  "currentSongStream st = Some s \<Longrightarrow>
   connect e st = (Streaming (randomBytes e) (length (passThroughs st)), snd (createResponseSink e st))"
  by (simp add: connect_def createResponseSink_eq)

text \<open>
  Claim C9.  In the window of a graceful stop the public interface treats the radio
  as online: \<^verbatim>\<open>connect()\<close> answers with a stream, not with status 503, and registers
  a new sink; that sink receives the chunks \<open>cs\<close> broadcast from then on, none of the
  earlier ones, and is ended when the song ends; and \<^verbatim>\<open>start()\<close> raises the
  already-playing error, before and after the connection, leaving the state as it is.
\<close>

theorem connect_in_graceful_window:
  assumes ok: "store_ok st" and pl: "playing st" and cur: "currentSongStream st = Some s"
  shows "fst (connect e (graceful_window st cs0)) =
           Streaming (randomBytes e) (length (passThroughs st)) \<and>
         map_of (sinks (snd (connect e (graceful_window st cs0)))) (randomBytes e) =
           Some (length (passThroughs st)) \<and>
         passThroughs (play_rest cs e' (snd (connect e (graceful_window st cs0))))
             ! length (passThroughs st) =
           \<lparr>destroyed = False, chunks = cs, writableEnded = True\<rparr> \<and>
         WebRadio_start e'' (graceful_window st cs0) = (Threw AlreadyPlaying, graceful_window st cs0) \<and>
         WebRadio_start e'' (snd (connect e (graceful_window st cs0))) =
           (Threw AlreadyPlaying, snd (connect e (graceful_window st cs0)))"
proof -
  let ?w = "graceful_window st cs0"
  let ?a = "length (passThroughs st)"
  let ?c = "snd (createResponseSink e ?w)"
  have curw: "currentSongStream ?w = Some s" using cur by (simp add: graceful_window_fields [OF pl])
  have lenw: "length (passThroughs ?w) = ?a" by (simp add: graceful_window_fields [OF pl])
  have con: "connect e ?w = (Streaming (randomBytes e) ?a, ?c)"
    using connect_online [OF curw, of e] by (simp add: lenw)
  have okw: "store_ok ?w" using pl ok by (rule graceful_window_store_ok)
  have okc: "store_ok ?c" using okw by (rule createResponseSink_store_ok)
  have reg: "(randomBytes e, ?a) \<in> set (sinks ?c)"
    by (simp add: createResponseSink_eq lenw update_mem)
  have new: "passThroughs ?c ! ?a = new_PassThrough"
    by (simp add: createResponseSink_eq lenw [symmetric])
  have curc: "currentSongStream ?c = Some s" "\<not> playing ?c"
    using curw by (simp_all add: createResponseSink_eq graceful_window_fields [OF pl])
  have fed: "passThroughs (fold on_data cs ?c) ! ?a = new_PassThrough\<lparr>chunks := cs\<rparr>"
    using fold_on_data_at [OF okc reg, of cs] by (simp add: new new_PassThrough_def)
  let ?d = "fold on_data cs ?c"
  let ?x = "?d\<lparr>readStreams := (readStreams ?d)[s := destroy (readStreams ?d ! s)], currentSongStream := None\<rparr>"
  have rest: "play_rest cs e' ?c = logFn_call StoppedPlaying (endAll ?x)"
    unfolding play_rest_def
    by (subst on_end_not_playing [where s = s]) (simp_all add: curc)
  have "store_ok ?d" using okc by (rule fold_on_data_store_ok)
  then have okx: "store_ok ?x" by (simp add: store_ok_def)
  have "(randomBytes e, ?a) \<in> set (sinks ?x)" using reg by simp
  with okx have "passThroughs (endAll ?x) ! ?a = sink_end (passThroughs ?x ! ?a)" by (rule endAll_at)
  then have fin: "passThroughs (play_rest cs e' ?c) ! ?a = \<lparr>destroyed = False, chunks = cs, writableEnded = True\<rparr>"
    by (simp add: rest fed sink_end_def new_PassThrough_def)
  have st1: "WebRadio_start e'' ?w = (Threw AlreadyPlaying, ?w)"
    using curw by (simp add: WebRadio_start_def)
  have st2: "WebRadio_start e'' ?c = (Threw AlreadyPlaying, ?c)"
    using curc by (simp add: WebRadio_start_def)
  have mp: "map_of (sinks ?c) (randomBytes e) = Some ?a"
    by (simp add: createResponseSink_eq lenw update_conv')
  show ?thesis using fin st1 st2 mp by (simp add: con)
qed

theorem connect_in_graceful_window_witness:
  "store_ok demo_playing \<and> playing demo_playing \<and> currentSongStream demo_playing = Some 0 \<and>
   fst (connect demo_env (graceful_window demo_playing [''x''])) = Streaming ''9f'' 1 \<and>
   passThroughs (play_rest [''y''] demo_env (snd (connect demo_env (graceful_window demo_playing [''x'']))))
       ! 1 = \<lparr>destroyed = False, chunks = [''y''], writableEnded = True\<rparr> \<and>
   WebRadio_start demo_env (graceful_window demo_playing [''x'']) =
     (Threw AlreadyPlaying, graceful_window demo_playing [''x''])"
proof -
  note f = demo_playing_facts
  have len: "length (passThroughs demo_playing) = 1" by (simp add: f(6))
  have rb: "randomBytes demo_env = ''9f''" by (simp add: demo_env_def)
  from connect_in_graceful_window [OF f(1) f(3) f(4), of demo_env "[''x'']" "[''y'']" demo_env demo_env]
  show ?thesis using f(1) f(3) f(4) by (simp add: len rb)
qed
section \<open>Reachable states\<close>

lemma inv_frame:
  assumes "engine_inv st" "sinks st' = sinks st" "passThroughs st' = passThroughs st"
    "currentSongStream st' = currentSongStream st" "length (readStreams st') = length (readStreams st)"
  shows "engine_inv st'"
  using assms by (simp add: engine_inv_def store_ok_def sinks_live_def)

lemma inv_torn_down:
  "sinks st' = [] \<Longrightarrow> currentSongStream st' = None \<Longrightarrow> engine_inv st'"
  by (simp add: engine_inv_def store_ok_def sinks_live_def)

lemma inv_new_stream:
  assumes "engine_inv st" "sinks st' = sinks st" "passThroughs st' = passThroughs st"
    "currentSongStream st' = Some (length (readStreams st))"
    "length (readStreams st') = Suc (length (readStreams st))"
  shows "engine_inv st'"
  using assms by (simp add: engine_inv_def store_ok_def sinks_live_def)

lemma playNextSong_begin_inv: "engine_inv st \<Longrightarrow> engine_inv (snd (playNextSong_begin e st))"
  apply (simp add: playNextSong_begin_def Let_def destroy_current_def logFn_call_def
      split: sum.splits option.splits prod.splits list.splits if_splits)
  apply (auto elim: inv_frame intro: inv_torn_down inv_new_stream simp: endAll_def)
  done

lemma playNextSong_finish_inv:
  "engine_inv st \<Longrightarrow> engine_inv (snd (playNextSong_finish e songPath st))"
  apply (simp add: playNextSong_finish_def playNextSong_resume_def getBitRate_def logFn_call_def
      Let_def split: sum.splits option.splits prod.splits if_splits)
  apply (auto elim: inv_frame)
  done

lemma Player_start_begin_inv: "engine_inv st \<Longrightarrow> engine_inv (snd (Player_start_begin e st))"
proof -
  assume i: "engine_inv st"
  show ?thesis
  proof (cases "readSongs e (opts st)")
    case (Inl err)
    with i show ?thesis by (simp add: Player_start_begin_def)
  next
    case (Inr found)
    have "engine_inv (st\<lparr>songs := found\<rparr>)" using i by (rule inv_frame) simp_all
    then have "engine_inv (snd (playNextSong_begin e (st\<lparr>songs := found\<rparr>)))"
      by (rule playNextSong_begin_inv)
    with Inr show ?thesis by (simp add: Player_start_begin_def)
  qed
qed

lemma WebRadio_start_begin_inv:
  "engine_inv st \<Longrightarrow> engine_inv (snd (WebRadio_start_begin e st))"
  by (simp add: WebRadio_start_begin_def Player_start_begin_inv)

lemma on_end_begin_inv: "engine_inv st \<Longrightarrow> engine_inv (snd (on_end_begin e st))"
  apply (simp add: on_end_begin_def playNextSong_begin_inv destroy_current_def logFn_call_def
      split: option.splits)
  apply (auto intro: inv_torn_down simp: endAll_def)
  done

text \<open>
  The functions \<^verbatim>\<open>playNextSong\<close>, \<^verbatim>\<open>start\<close> and the \<^verbatim>\<open>end\<close> handler of the sections
  above are these parts run one after the other.
\<close>

lemma playNextSong_phases: "playNextSong e st = complete e (playNextSong_begin e st)"
  by (simp add: playNextSong_def complete_def playNextSong_finish_def split: prod.splits sum.splits)

lemma WebRadio_start_phases: "WebRadio_start e st = complete e (WebRadio_start_begin e st)"
  by (simp add: WebRadio_start_def WebRadio_start_begin_def Player_start_def Player_start_begin_def
      playNextSong_phases complete_def split: sum.splits)

lemma on_end_phases: "on_end e st = complete e (on_end_begin e st)"
  by (simp add: on_end_def on_end_begin_def playNextSong_phases complete_def split: sum.splits)

lemma WebRadio_stop_inv: "engine_inv st \<Longrightarrow> engine_inv (snd (WebRadio_stop graceful st))"
  apply (simp add: WebRadio_stop_def Player_stop_def destroy_current_def Let_def logFn_call_def
      split: option.splits)
  apply (auto intro: inv_torn_down simp: endAll_def engine_inv_def store_ok_def sinks_live_def)
  done

lemma on_data_inv: "engine_inv st \<Longrightarrow> engine_inv (on_data c st)"
proof -
  assume i: "engine_inv st"
  then have ok: "store_ok st" and live: "sinks_live st" by (simp_all add: engine_inv_def)
  have "\<forall>(k, a) \<in> set (sinks st). \<not> destroyed (passThroughs (on_data c st) ! a) \<and>
        \<not> writableEnded (passThroughs (on_data c st) ! a)"
    using sinks_liveD [OF live] by (auto simp: on_data_at [OF ok] sink_write_def)
  then have "sinks_live (on_data c st)"
    by (auto simp: sinks_live_def list_all_iff)
  moreover have "playing (on_data c st) = playing st" "currentSongStream (on_data c st) = currentSongStream st"
    by (simp_all add: on_data_def broadcastChunk_def)
  ultimately show ?thesis using i on_data_store_ok [OF ok] by (simp add: engine_inv_def)
qed

lemma connect_inv: "engine_inv st \<Longrightarrow> engine_inv (snd (connect e st))"
proof -
  assume i: "engine_inv st"
  then have ok: "store_ok st" and live: "sinks_live st" by (simp_all add: engine_inv_def)
  let ?a = "length (passThroughs st)"
  let ?c = "snd (createResponseSink e st)"
  have okc: "store_ok ?c" using ok by (rule createResponseSink_store_ok)
  have old: "\<forall>b \<in> snd ` set (sinks st). b < ?a \<and> \<not> destroyed (passThroughs st ! b) \<and> \<not> writableEnded (passThroughs st ! b)"
    using ok live by (auto simp: store_ok_def sinks_live_def list_all_iff)
  have "\<forall>b \<in> snd ` set (sinks ?c). \<not> destroyed (passThroughs ?c ! b) \<and> \<not> writableEnded (passThroughs ?c ! b)"
  proof
    fix b assume "b \<in> snd ` set (sinks ?c)"
    then have "b = ?a \<or> b \<in> snd ` set (sinks st)"
      using update_snd_subset [of "randomBytes e" ?a "sinks st"] by (auto simp: createResponseSink_eq)
    then show "\<not> destroyed (passThroughs ?c ! b) \<and> \<not> writableEnded (passThroughs ?c ! b)"
      using old by (auto simp: createResponseSink_eq nth_append new_PassThrough_def)
  qed
  then have "sinks_live ?c" by (auto simp: sinks_live_def list_all_iff)
  moreover have "playing ?c = playing st" "currentSongStream ?c = currentSongStream st"
    by (simp_all add: createResponseSink_eq)
  ultimately have "engine_inv ?c" using i okc by (simp add: engine_inv_def)
  moreover have "engine_inv (logFn_call ClientWhileOffline st)"
    using i by (rule inv_frame) (simp_all add: logFn_call_def)
  ultimately show ?thesis by (auto simp: connect_def split: prod.splits)
qed

lemma on_close_inv: "engine_inv st \<Longrightarrow> engine_inv (on_close sinkId st)"
proof -
  assume i: "engine_inv st"
  then have ok: "store_ok st" and live: "sinks_live st" by (simp_all add: engine_inv_def)
  have d: "distinct (map snd (sinks st))" using ok by (simp add: store_ok_def)
  have old: "\<forall>b \<in> snd ` set (sinks st). b < length (passThroughs st) \<and>
      \<not> destroyed (passThroughs st ! b) \<and> \<not> writableEnded (passThroughs st ! b)"
    using ok live by (auto simp: store_ok_def sinks_live_def list_all_iff)
  let ?r = "removeResponseSink sinkId st"
  have reg: "sinks ?r = AList.delete sinkId (sinks st)"
    by (simp add: removeResponseSink_def logFn_call_def split: option.splits)
  have len: "length (passThroughs ?r) = length (passThroughs st)"
    by (simp add: removeResponseSink_def logFn_call_def split: option.splits)
  have same: "\<forall>b \<in> snd ` set (sinks ?r). passThroughs ?r ! b = passThroughs st ! b"
  proof (cases "map_of (sinks st) sinkId")
    case None
    then show ?thesis by (simp add: removeResponseSink_def logFn_call_def)
  next
    case (Some a)
    have "a \<notin> snd ` set (AList.delete sinkId (sinks st))"
      using d Some by (rule delete_snd_removed)
    then have "\<forall>b \<in> snd ` set (AList.delete sinkId (sinks st)). b \<noteq> a" by auto
    then show ?thesis using Some
      by (auto simp: removeResponseSink_def logFn_call_def)
  qed
  have sub: "snd ` set (sinks ?r) \<subseteq> snd ` set (sinks st)"
    unfolding reg by (rule delete_snd_subset)
  have keep: "playing ?r = playing st" "currentSongStream ?r = currentSongStream st"
      "readStreams ?r = readStreams st"
    by (simp_all add: removeResponseSink_def logFn_call_def split: option.splits)
  have inr: "\<forall>b \<in> snd ` set (sinks ?r). b < length (passThroughs ?r)"
    using sub old len by fastforce
  have dr: "distinct (map snd (sinks ?r))"
    unfolding reg using d by (rule delete_snd_distinct)
  have "store_ok ?r" using ok dr inr
    by (simp add: store_ok_def list_all_iff keep)
  moreover have "sinks_live ?r" using same sub old
    by (fastforce simp: sinks_live_def list_all_iff)
  ultimately show ?thesis using i by (simp add: engine_inv_def on_close_def keep)
qed

lemma constructor_inv: "WebRadio_constructor e options = Inr st \<Longrightarrow> engine_inv st"
  by (auto simp: WebRadio_constructor_def Player_constructor_def Let_def logFn_call_def
      engine_inv_def store_ok_def sinks_live_def split: if_splits sum.splits)

lemma reachable_inv: "reachable ps st \<Longrightarrow> engine_inv st"
  by (induction rule: reachable.induct)
     (simp_all add: constructor_inv WebRadio_start_begin_inv playNextSong_finish_inv
        WebRadio_stop_inv connect_inv on_close_inv on_data_inv on_end_begin_inv)

text \<open>
  So the conditions \<open>store_ok\<close> and \<open>sinks_live\<close> that the theorems on the engine assume
  hold in every state a radio reaches.  In particular no write of \<^verbatim>\<open>broadcastChunk\<close>
  fails there: every registered sink takes the chunk, and the registry is left as it
  is.  A sink leaves the registry through \<^verbatim>\<open>removeResponseSink\<close>, which the
  \<^verbatim>\<open>close\<close> handler of its response calls, or when the radio stops; either way it is
  destroyed or ended as it is taken out.
\<close>

lemma broadcast_reaches_every_sink:
  assumes "reachable ps st"
  shows "sinks (broadcastChunk c st) = sinks st \<and>
         (\<forall>(k, a) \<in> set (sinks st).
            passThroughs (broadcastChunk c st) ! a =
              (passThroughs st ! a)\<lparr>chunks := chunks (passThroughs st ! a) @ [c]\<rparr>)"
proof -
  from assms have "engine_inv st" by (rule reachable_inv)
  then have ok: "store_ok st" and live: "sinks_live st" by (simp_all add: engine_inv_def)
  have "\<forall>(k, a) \<in> set (sinks st).
      passThroughs (broadcastChunk c st) ! a =
        (passThroughs st ! a)\<lparr>chunks := chunks (passThroughs st ! a) @ [c]\<rparr>"
    using sinks_liveD [OF live] by (auto simp: broadcastChunk_at [OF ok] sink_write_def)
  then show ?thesis by (simp add: broadcastChunk_def)
qed

lemma readdirSync_demo:
  "readdirSync demo_env = Some [\<lparr>name = ''a.mp3'', isFile_result = True\<rparr>,
                                \<lparr>name = ''b.mp3'', isFile_result = True\<rparr>]"
  by (simp add: demo_env_def)

lemmas demo_eval = WebRadio_start_begin_def WebRadio_start_def WebRadio_playing_def
  Player_start_begin_def Player_start_def readSongs_def readdirSync_demo isFile_member_def
  extname_def playNextSong_def playNextSong_begin_def playNextSong_finish_def getBitRate_def
  probed_bit_rate_demo parseInt_192000 playNextSong_resume_def on_end_begin_def
  WebRadio_stop_def Player_stop_def destroy_current_def endAll_def for_each_sink_def
  logFn_call_def createReadStream_def destroy_def Let_def demo_idle_def demo_options_def

lemma demo_raced_eq:
  "demo_raced =
     \<lparr>opts = demo_options, currentSongStream = None, sinks = [], songs = [],
        currentSong = Some ''b.mp3'', playing = True,
        readStreams = [\<lparr>destroyed = False, path = ''a.mp3''\<rparr>,
                       \<lparr>destroyed = True, path = ''b.mp3''\<rparr>],
        passThroughs = [],
        logged = [FoundSongs 2, NowPlaying (Some ''a.mp3'') (Num 192000), StoppedPlaying,
                  NowPlaying (Some ''b.mp3'') (Num 192000)]\<rparr>"
  by (simp add: demo_raced_def demo_eval)

lemma demo_raced_reachable: "reachable [] demo_raced"
proof -
  let ?st1 = "snd (WebRadio_start_begin demo_env demo_idle)"
  let ?st2 = "snd (playNextSong_finish demo_env ''a.mp3'' ?st1)"
  let ?st3 = "snd (on_end_begin demo_env ?st2)"
  let ?st4 = "snd (WebRadio_stop False ?st3)"
  have s1: "fst (WebRadio_start_begin demo_env demo_idle) = Inr ''a.mp3''"
    by (simp add: demo_eval)
  have s3: "fst (on_end_begin demo_env ?st2) = Inr ''b.mp3''"
    by (simp add: demo_eval)
  have "reachable [] demo_idle"
    using constructor_demo by (rule reachable.constructed)
  from reachable.started [OF this, of demo_env]
  have "reachable ([] @ ''a.mp3'' # []) ?st1" by (simp add: s1)
  then have "reachable ([] @ []) ?st2" by (rule reachable.resumed)
  from reachable.ended [OF this, of demo_env]
  have "reachable [''b.mp3''] ?st3" by (simp add: s3)
  then have "reachable ([] @ ''b.mp3'' # []) ?st4" by (simp add: reachable.stopped)
  then have "reachable ([] @ []) (snd (playNextSong_finish demo_env ''b.mp3'' ?st4))"
    by (rule reachable.resumed)
  then show ?thesis by (simp add: demo_raced_def Let_def)
qed

lemma start_raises_with_stream:
  "currentSongStream st \<noteq> None \<Longrightarrow> WebRadio_start e st = (Threw AlreadyPlaying, st)"
  by (simp add: WebRadio_start_def)

lemma stop_raises_without_flag:
  "\<not> playing st \<Longrightarrow> WebRadio_stop graceful st = (Threw NotPlaying, st)"
  by (simp add: WebRadio_stop_def)

text \<open>
  Claim C6.  The claim: \<^verbatim>\<open>start()\<close> on a radio that is already playing raises the
  already-playing error, and \<^verbatim>\<open>stop()\<close> on a radio that is not playing raises the
  not-playing error; either way the state is left as it was.  The two lemmas above are
  the parts that hold: \<^verbatim>\<open>start()\<close> raises and changes nothing whenever a current
  song stream is there, and \<^verbatim>\<open>stop()\<close> raises and changes nothing whenever the
  player's \<open>playing\<close> flag is clear.  The part that fails: the flag that \<^verbatim>\<open>start()\<close>
  tests is \<^verbatim>\<open>this.playing\<close> of the \<^verbatim>\<open>WebRadio\<close>, which no code assigns, and not the
  player's.  The radio reaches the state \<open>demo_raced\<close>, where the player's flag is set
  and there is no stream, when \<^verbatim>\<open>stop(false)\<close> arrives while \<^verbatim>\<open>playNextSong\<close> awaits
  the bitrate.  There \<^verbatim>\<open>start()\<close> raises nothing and starts a song; and
  \<^verbatim>\<open>stop(false)\<close>, on a radio that plays nothing, clears the queue and the flag and
  raises a \<^verbatim>\<open>TypeError\<close>, not the not-playing error.
\<close>

theorem start_returns_with_playing_flag_set:
  "reachable [] demo_raced \<and>
   playing demo_raced \<and> currentSongStream demo_raced = None \<and>
   fst (WebRadio_start demo_env demo_raced) = Returned \<and>
   currentSongStream (snd (WebRadio_start demo_env demo_raced)) = Some 2 \<and>
   currentSong (snd (WebRadio_start demo_env demo_raced)) = Some ''a.mp3'' \<and>
   WebRadio_stop False demo_raced = (Threw TypeError, demo_raced\<lparr>songs := [], playing := False\<rparr>)"
  using demo_raced_reachable by (simp add: demo_raced_eq demo_eval)
section \<open>A graceful stop that arrives while \<^verbatim>\<open>playNextSong\<close> awaits the bitrate\<close>

text \<open>
  Between two songs \<^verbatim>\<open>playNextSong\<close> is suspended while the bitrate is probed, with
  the \<open>playing\<close> flag still set from the song before.  When \<^verbatim>\<open>stop(true)\<close> is called
  then, the rest of \<^verbatim>\<open>playNextSong\<close> sets the flag again, and a radio that loops goes on
  to list and play its songs when the song ends.  The theorems on a graceful stop
  above are about a call in the middle of a song, after that rest has run.
\<close>

lemma graceful_stop_while_awaiting_bitrate:
  "(let st0 = demo_playing\<lparr>opts := demo_options\<lparr>loop := JBool True\<rparr>\<rparr>;
        st1 = snd (on_end_begin demo_env st0);
        st2 = snd (WebRadio_stop True st1);
        st3 = snd (playNextSong_finish demo_env ''b.mp3'' st2);
        st4 = play_rest [''x''] demo_env st3
    in fst (on_end_begin demo_env st0) = Inr ''b.mp3'' \<and>
       fst (WebRadio_stop True st1) = Returned \<and> \<not> playing st2 \<and>
       playing st3 \<and> playing st4 \<and> currentSong st4 = Some ''a.mp3'' \<and>
       sinks st4 = [(''s1'', 0)] \<and> \<not> writableEnded (passThroughs st4 ! 0))"
  by (simp add: demo_eval demo_playing_def play_rest_def on_end_def on_data_def
      broadcastChunk_def sink_write_def new_PassThrough_def)

end
